theory Spec2Isabelle
  imports Main "HOL-Library.Word"
begin

section \<open>The iterator protocol of hb-iter.hh\<close>

text \<open>
  The header builds its iterators with the curiously recurring template pattern: a concrete
  iterator type implements some of the methods \<^verbatim>\<open>__item__\<close>, \<^verbatim>\<open>__item_at__\<close>,
  \<^verbatim>\<open>__more__\<close>, \<^verbatim>\<open>__len__\<close>, \<^verbatim>\<open>__next__\<close>, \<^verbatim>\<open>__forward__\<close>, \<^verbatim>\<open>__prev__\<close>,
  \<^verbatim>\<open>__rewind__\<close>, \<^verbatim>\<open>__end__\<close> and \<^verbatim>\<open>operator !=\<close>, and \<^verbatim>\<open>hb_iter_t\<close> forwards its
  operators (\<^verbatim>\<open>operator bool\<close>, \<^verbatim>\<open>*\<close>, \<^verbatim>\<open>++\<close>, \<^verbatim>\<open>--\<close>, \<^verbatim>\<open>+=\<close>, \<^verbatim>\<open>len ()\<close>,
  \<^verbatim>\<open>end ()\<close>) to them. The embedding passes the resolved methods of an iterator type as a
  record of functions on the iterator's value (its cursor state) \<open>'s\<close>.

  A method that runs a loop, or that calls one that does, may fail to return; it is
  option-valued, and \<open>None\<close> says that no value is returned. \<^verbatim>\<open>unsigned\<close> is a 32-bit word.
\<close>

type_synonym unsigned = "32 word"

record ('s, 'a) hb_iter_t =
  is_random_access_iterator :: bool
  is_sorted_iterator :: bool
  iter_item :: "'s \<Rightarrow> 'a"
  iter_item_at :: "'s \<Rightarrow> unsigned \<Rightarrow> 'a option"
  iter_more :: "'s \<Rightarrow> bool"
  iter_len :: "'s \<Rightarrow> unsigned option"
  iter_next :: "'s \<Rightarrow> 's option"
  iter_forward :: "'s \<Rightarrow> unsigned \<Rightarrow> 's option"
  iter_prev :: "'s \<Rightarrow> 's option"
  iter_rewind :: "'s \<Rightarrow> unsigned \<Rightarrow> 's option"
  iter_end :: "'s \<Rightarrow> 's option"
  iter_neq :: "'s \<Rightarrow> 's \<Rightarrow> bool"

subsection \<open>Helpers of hb-algs.hh\<close>

text \<open>
  Modelled from the spec: \<^verbatim>\<open>hb_get\<close>, \<^verbatim>\<open>hb_has\<close>, \<^verbatim>\<open>hb_match\<close> and \<^verbatim>\<open>hb_min\<close> are
  defined in hb-algs.hh, which is not among the sources. The spec writes a projection
  applied to an item as \<open>proj(item)\<close> and a predicate test as \<open>pred(proj(item))\<close>.
\<close>

definition hb_get :: "('a \<Rightarrow> 'b) \<Rightarrow> 'a \<Rightarrow> 'b" where
  "hb_get f x = f x"

definition hb_has :: "('b \<Rightarrow> bool) \<Rightarrow> 'b \<Rightarrow> bool" where
  "hb_has p x = p x"

definition hb_match :: "('b \<Rightarrow> bool) \<Rightarrow> 'b \<Rightarrow> bool" where
  "hb_match p x = p x"

definition hb_min :: "unsigned \<Rightarrow> unsigned \<Rightarrow> unsigned" where
  "hb_min a b = (if a \<le> b then a else b)"

subsection \<open>hb_iter_fallback_mixin_t\<close>

text \<open>
  The mixin fills in what the concrete type does not provide. Each default is written over
  the methods of the concrete type it calls.

  \<^verbatim>\<open>unsigned __len__ () const
  { iter_t c (*thiz()); unsigned l = 0; while (c) { c++; l++; }; return l; }\<close>
\<close>

partial_function (option) fallback_len_loop ::
  "('s \<Rightarrow> bool) \<Rightarrow> ('s \<Rightarrow> 's option) \<Rightarrow> 's \<Rightarrow> unsigned \<Rightarrow> unsigned option" where
  "fallback_len_loop mor nxt c l =
     (if mor c then Option.bind (nxt c) (\<lambda>c'. fallback_len_loop mor nxt c' (l + 1))
      else Some l)"

definition fallback_len :: "('s \<Rightarrow> bool) \<Rightarrow> ('s \<Rightarrow> 's option) \<Rightarrow> 's \<Rightarrow> unsigned option" where
  "fallback_len mor nxt s = fallback_len_loop mor nxt s 0"

text \<open>\<^verbatim>\<open>bool __more__ () const { return thiz()->len (); }\<close>\<close>

definition fallback_more :: "('s \<Rightarrow> unsigned option) \<Rightarrow> 's \<Rightarrow> bool option" where
  "fallback_more ln s = map_option (\<lambda>l. l \<noteq> 0) (ln s)"

text \<open>\<^verbatim>\<open>void __forward__ (unsigned n) { while (n--) ++*thiz(); }\<close>\<close>

function fallback_forward :: "('s \<Rightarrow> 's option) \<Rightarrow> 's \<Rightarrow> unsigned \<Rightarrow> 's option" where
  "fallback_forward nxt s n =
     (if n = 0 then Some s
      else Option.bind (nxt s) (\<lambda>s'. fallback_forward nxt s' (n - 1)))"
  by pat_completeness auto
termination
  by (relation "measure (\<lambda>(nxt, s, n). unat n)") (auto simp: unat_minus_one unat_gt_0)

text \<open>\<^verbatim>\<open>void __next__ () { *thiz() += 1; }\<close>\<close>

definition fallback_next :: "('s \<Rightarrow> unsigned \<Rightarrow> 's option) \<Rightarrow> 's \<Rightarrow> 's option" where
  "fallback_next fwd s = fwd s 1"

text \<open>\<^verbatim>\<open>void __rewind__ (unsigned n) { while (n--) --*thiz(); }\<close>\<close>

function fallback_rewind :: "('s \<Rightarrow> 's option) \<Rightarrow> 's \<Rightarrow> unsigned \<Rightarrow> 's option" where
  "fallback_rewind prv s n =
     (if n = 0 then Some s
      else Option.bind (prv s) (\<lambda>s'. fallback_rewind prv s' (n - 1)))"
  by pat_completeness auto
termination
  by (relation "measure (\<lambda>(prv, s, n). unat n)") (auto simp: unat_minus_one unat_gt_0)

text \<open>\<^verbatim>\<open>void __prev__ () { *thiz() -= 1; }\<close>\<close>

definition fallback_prev :: "('s \<Rightarrow> unsigned \<Rightarrow> 's option) \<Rightarrow> 's \<Rightarrow> 's option" where
  "fallback_prev rwd s = rwd s 1"

text \<open>\<^verbatim>\<open>item_t __item_at__ (unsigned i) const { return *(*thiz() + i); }\<close>\<close>

definition fallback_item_at ::
  "('s \<Rightarrow> 'a) \<Rightarrow> ('s \<Rightarrow> unsigned \<Rightarrow> 's option) \<Rightarrow> 's \<Rightarrow> unsigned \<Rightarrow> 'a option" where
  "fallback_item_at itm fwd s i = map_option itm (fwd s i)"

text \<open>
  \<^verbatim>\<open>iter_t __end__ () const
  {
    if (thiz()->is_random_access_iterator)
      return *thiz() + thiz()->len ();
    /* Above expression loops twice. Following loops once. */
    auto it = *thiz();
    while (it) ++it;
    return it;
  }\<close>
  The loop of the second branch is \<open>end_loop\<close>.
\<close>

partial_function (option) end_loop ::
  "('s \<Rightarrow> bool) \<Rightarrow> ('s \<Rightarrow> 's option) \<Rightarrow> 's \<Rightarrow> 's option" where
  "end_loop mor nxt it = (if mor it then Option.bind (nxt it) (end_loop mor nxt) else Some it)"

definition fallback_end ::
  "bool \<Rightarrow> ('s \<Rightarrow> bool) \<Rightarrow> ('s \<Rightarrow> 's option) \<Rightarrow> ('s \<Rightarrow> unsigned \<Rightarrow> 's option) \<Rightarrow>
     ('s \<Rightarrow> unsigned option) \<Rightarrow> 's \<Rightarrow> 's option" where
  "fallback_end is_ra mor nxt fwd ln s =
     (if is_ra then Option.bind (ln s) (\<lambda>l. fwd s l)
      else end_loop mor nxt s)"

subsection \<open>Traversal\<close>

text \<open>
  The items a forward traversal \<^verbatim>\<open>for (; it; ++it) ... *it ...\<close> visits, in order (the loop
  of \<^verbatim>\<open>hb_drain\<close>, keeping the items), and the iterator after \<open>n\<close> applications of
  \<^verbatim>\<open>++\<close>. A sequence is finite when \<open>items\<close> returns.
\<close>

partial_function (option) items :: "('s, 'a) hb_iter_t \<Rightarrow> 's \<Rightarrow> 'a list option" where
  "items I it =
     (if iter_more I it
      then Option.bind (iter_next I it)
             (\<lambda>it'. Option.bind (items I it') (\<lambda>xs. Some (iter_item I it # xs)))
      else Some [])"

fun advance :: "('s, 'a) hb_iter_t \<Rightarrow> nat \<Rightarrow> 's \<Rightarrow> 's option" where
  "advance I 0 it = Some it"
| "advance I (Suc n) it = Option.bind (iter_next I it) (advance I n)"

section \<open>Adaptors\<close>

subsection \<open>hb_iota\<close>

text \<open>
  \<^verbatim>\<open>template <typename T, typename S> struct hb_iota_iter_t\<close> with members \<^verbatim>\<open>T v; T end;
  S step;\<close>. The header's own defaults for both type parameters are \<^verbatim>\<open>unsigned\<close>, and
  the embedding takes \<open>T = S = unsigned\<close>, so \<open>+\<close>, \<open>-\<close> and \<open>*\<close> wrap around at \<open>2 ^ 32\<close>.
  \<^verbatim>\<open>%\<close> and \<^verbatim>\<open>/\<close> by zero do not return.
\<close>

record hb_iota_iter_t =
  iota_v :: unsigned
  iota_end :: unsigned
  iota_step :: unsigned

text \<open>
  \<^verbatim>\<open>static inline T end_for (T start, T end, S step)
  {
    auto res = (end - start) % step;
    if (!res)
      return end;
    end += step - res;
    return end;
  }\<close>
\<close>

definition end_for :: "unsigned \<Rightarrow> unsigned \<Rightarrow> unsigned \<Rightarrow> unsigned option" where
  "end_for start endv step =
     (if step = 0 then None
      else let res = (endv - start) mod step
           in if res = 0 then Some endv else Some (endv + (step - res)))"

text \<open>
  \<^verbatim>\<open>hb_iota_iter_t (T start, T end, S step) :
    v (start), end (end_for (start, end, step)), step (step) {}\<close>
\<close>

definition hb_iota :: "unsigned \<Rightarrow> unsigned \<Rightarrow> unsigned \<Rightarrow> hb_iota_iter_t option" where
  "hb_iota start endv step =
     map_option (\<lambda>e. \<lparr>iota_v = start, iota_end = e, iota_step = step\<rparr>) (end_for start endv step)"

definition iota_item :: "hb_iota_iter_t \<Rightarrow> unsigned" where
  "iota_item it = iota_v it"

definition iota_item_at :: "hb_iota_iter_t \<Rightarrow> unsigned \<Rightarrow> unsigned option" where
  "iota_item_at it j = Some (iota_v it + j * iota_step it)"

definition iota_more :: "hb_iota_iter_t \<Rightarrow> bool" where
  "iota_more it = (iota_v it \<noteq> iota_end it)"

definition iota_len :: "hb_iota_iter_t \<Rightarrow> unsigned option" where
  "iota_len it =
     (if iota_step it = 0 then None else Some ((iota_end it - iota_v it) div iota_step it))"

definition iota_next :: "hb_iota_iter_t \<Rightarrow> hb_iota_iter_t option" where
  "iota_next it = Some (it\<lparr>iota_v := iota_v it + iota_step it\<rparr>)"

definition iota_forward :: "hb_iota_iter_t \<Rightarrow> unsigned \<Rightarrow> hb_iota_iter_t option" where
  "iota_forward it n = Some (it\<lparr>iota_v := iota_v it + n * iota_step it\<rparr>)"

definition iota_prev :: "hb_iota_iter_t \<Rightarrow> hb_iota_iter_t option" where
  "iota_prev it = Some (it\<lparr>iota_v := iota_v it - iota_step it\<rparr>)"

definition iota_rewind :: "hb_iota_iter_t \<Rightarrow> unsigned \<Rightarrow> hb_iota_iter_t option" where
  "iota_rewind it n = Some (it\<lparr>iota_v := iota_v it - n * iota_step it\<rparr>)"

text \<open>
  \<^verbatim>\<open>hb_iota_iter_t __end__ () const { hb_iota_iter_t (end, end, step); }\<close>
  The body builds a temporary iterator and drops it; there is no \<^verbatim>\<open>return\<close> statement,
  so control flows off the end of the function and no value is returned.
\<close>

definition iota_end_op :: "hb_iota_iter_t \<Rightarrow> hb_iota_iter_t option" where
  "iota_end_op it =
     Option.bind (hb_iota (iota_end it) (iota_end it) (iota_step it)) (\<lambda>tmp. None)"

text \<open>
  \<^verbatim>\<open>bool operator != (const hb_iota_iter_t& o) const
  { return v != o.v || end != o.end || step != o.step; }\<close>
\<close>

definition iota_neq :: "hb_iota_iter_t \<Rightarrow> hb_iota_iter_t \<Rightarrow> bool" where
  "iota_neq it o' =
     (iota_v it \<noteq> iota_v o' \<or> iota_end it \<noteq> iota_end o' \<or> iota_step it \<noteq> iota_step o')"

definition hb_iota_ops :: "(hb_iota_iter_t, unsigned) hb_iter_t" where
  "hb_iota_ops =
     \<lparr>is_random_access_iterator = True,
      is_sorted_iterator = True,
      iter_item = iota_item,
      iter_item_at = iota_item_at,
      iter_more = iota_more,
      iter_len = iota_len,
      iter_next = iota_next,
      iter_forward = iota_forward,
      iter_prev = iota_prev,
      iter_rewind = iota_rewind,
      iter_end = iota_end_op,
      iter_neq = iota_neq\<rparr>"

subsection \<open>hb_map\<close>

text \<open>
  \<^verbatim>\<open>hb_map_iter_t\<close> has the members \<^verbatim>\<open>Iter it; hb_reference_wrapper<Proj> f;\<close> and derives
  from \<^verbatim>\<open>hb_iter_t\<close> only. It sets \<^verbatim>\<open>is_random_access_iterator\<close> and leaves
  \<^verbatim>\<open>is_sorted_iterator\<close> at the \<^verbatim>\<open>false\<close> of \<^verbatim>\<open>hb_iter_t\<close>.
\<close>

record ('s, 'a, 'b) hb_map_iter_t =
  map_it :: 's
  map_f :: "'a \<Rightarrow> 'b"

definition hb_map :: "('a \<Rightarrow> 'b) \<Rightarrow> 's \<Rightarrow> ('s, 'a, 'b) hb_map_iter_t" where
  "hb_map f it = \<lparr>map_it = it, map_f = f\<rparr>"

definition hb_map_ops ::
  "('s, 'a) hb_iter_t \<Rightarrow> (('s, 'a, 'b) hb_map_iter_t, 'b) hb_iter_t" where
  "hb_map_ops I =
     \<lparr>is_random_access_iterator = is_random_access_iterator I,
      is_sorted_iterator = False,
      iter_item = (\<lambda>m. hb_get (map_f m) (iter_item I (map_it m))),
      iter_item_at = (\<lambda>m i. map_option (hb_get (map_f m)) (iter_item_at I (map_it m) i)),
      iter_more = (\<lambda>m. iter_more I (map_it m)),
      iter_len = (\<lambda>m. iter_len I (map_it m)),
      iter_next = (\<lambda>m. map_option (\<lambda>it'. m\<lparr>map_it := it'\<rparr>) (iter_next I (map_it m))),
      iter_forward = (\<lambda>m n. map_option (\<lambda>it'. m\<lparr>map_it := it'\<rparr>) (iter_forward I (map_it m) n)),
      iter_prev = (\<lambda>m. map_option (\<lambda>it'. m\<lparr>map_it := it'\<rparr>) (iter_prev I (map_it m))),
      iter_rewind = (\<lambda>m n. map_option (\<lambda>it'. m\<lparr>map_it := it'\<rparr>) (iter_rewind I (map_it m) n)),
      iter_end = (\<lambda>m. map_option (hb_map (map_f m)) (iter_end I (map_it m))),
      iter_neq = (\<lambda>m o'. iter_neq I (map_it m) (map_it o') \<or> map_f m \<noteq> map_f o')\<rparr>"

subsection \<open>hb_filter\<close>

text \<open>
  \<^verbatim>\<open>hb_filter_iter_t\<close> has the members \<^verbatim>\<open>Iter it; hb_reference_wrapper<Pred> p;
  hb_reference_wrapper<Proj> f;\<close> and derives from \<^verbatim>\<open>hb_iter_with_fallback_t\<close>, so the
  mixin provides \<^verbatim>\<open>__item_at__\<close>, \<^verbatim>\<open>__len__\<close>, \<^verbatim>\<open>__forward__\<close> and \<^verbatim>\<open>__rewind__\<close>.

  The loop \<^verbatim>\<open>while (it && !hb_has (p.get (), hb_get (f.get (), *it))) ++it;\<close> is the body
  of the constructor and the tail of \<^verbatim>\<open>__next__\<close>.
\<close>

record ('s, 'a, 'b) hb_filter_iter_t =
  filter_it :: 's
  filter_p :: "'b \<Rightarrow> bool"
  filter_f :: "'a \<Rightarrow> 'b"

partial_function (option) filter_skip ::
  "('s, 'a) hb_iter_t \<Rightarrow> ('b \<Rightarrow> bool) \<Rightarrow> ('a \<Rightarrow> 'b) \<Rightarrow> 's \<Rightarrow> 's option" where
  "filter_skip I p f it =
     (if iter_more I it \<and> \<not> hb_has p (hb_get f (iter_item I it))
      then Option.bind (iter_next I it) (filter_skip I p f)
      else Some it)"

text \<open>
  \<^verbatim>\<open>hb_filter_iter_t (const Iter& it_, Pred p_, Proj f_) : it (it_), p (p_), f (f_)
  { while (it && !hb_has (p.get (), hb_get (f.get (), *it))) ++it; }\<close>
\<close>

definition hb_filter ::
  "('s, 'a) hb_iter_t \<Rightarrow> 's \<Rightarrow> ('b \<Rightarrow> bool) \<Rightarrow> ('a \<Rightarrow> 'b) \<Rightarrow> ('s, 'a, 'b) hb_filter_iter_t option" where
  "hb_filter I it p f =
     map_option (\<lambda>it'. \<lparr>filter_it = it', filter_p = p, filter_f = f\<rparr>) (filter_skip I p f it)"

text \<open>\<^verbatim>\<open>__item_t__ __item__ () const { return *it; }\<close>\<close>

definition filter_item :: "('s, 'a) hb_iter_t \<Rightarrow> ('s, 'a, 'b) hb_filter_iter_t \<Rightarrow> 'a" where
  "filter_item I ft = iter_item I (filter_it ft)"

text \<open>\<^verbatim>\<open>bool __more__ () const { return bool (it); }\<close>\<close>

definition filter_more :: "('s, 'a) hb_iter_t \<Rightarrow> ('s, 'a, 'b) hb_filter_iter_t \<Rightarrow> bool" where
  "filter_more I ft = iter_more I (filter_it ft)"

text \<open>
  \<^verbatim>\<open>void __next__ () { do ++it; while (it && !hb_has (p.get (), hb_get (f.get (), *it))); }\<close>
\<close>

definition filter_next ::
  "('s, 'a) hb_iter_t \<Rightarrow> ('s, 'a, 'b) hb_filter_iter_t \<Rightarrow> ('s, 'a, 'b) hb_filter_iter_t option" where
  "filter_next I ft =
     map_option (\<lambda>it'. ft\<lparr>filter_it := it'\<rparr>)
       (Option.bind (iter_next I (filter_it ft)) (filter_skip I (filter_p ft) (filter_f ft)))"

text \<open>\<^verbatim>\<open>void __prev__ () { --it; }\<close>\<close>

definition filter_prev ::
  "('s, 'a) hb_iter_t \<Rightarrow> ('s, 'a, 'b) hb_filter_iter_t \<Rightarrow> ('s, 'a, 'b) hb_filter_iter_t option" where
  "filter_prev I ft = map_option (\<lambda>it'. ft\<lparr>filter_it := it'\<rparr>) (iter_prev I (filter_it ft))"

text \<open>\<^verbatim>\<open>hb_filter_iter_t __end__ () const { return hb_filter_iter_t (it.end (), p, f); }\<close>\<close>

definition filter_end ::
  "('s, 'a) hb_iter_t \<Rightarrow> ('s, 'a, 'b) hb_filter_iter_t \<Rightarrow> ('s, 'a, 'b) hb_filter_iter_t option" where
  "filter_end I ft =
     Option.bind (iter_end I (filter_it ft)) (\<lambda>e. hb_filter I e (filter_p ft) (filter_f ft))"

text \<open>
  \<^verbatim>\<open>bool operator != (const hb_filter_iter_t& o) const
  { return it != o.it || p != o.p || f != o.f; }\<close>
\<close>

definition filter_neq ::
  "('s, 'a) hb_iter_t \<Rightarrow> ('s, 'a, 'b) hb_filter_iter_t \<Rightarrow> ('s, 'a, 'b) hb_filter_iter_t \<Rightarrow> bool" where
  "filter_neq I ft o' =
     (iter_neq I (filter_it ft) (filter_it o') \<or> filter_p ft \<noteq> filter_p o' \<or> filter_f ft \<noteq> filter_f o')"

definition hb_filter_ops ::
  "('s, 'a) hb_iter_t \<Rightarrow> (('s, 'a, 'b) hb_filter_iter_t, 'a) hb_iter_t" where
  "hb_filter_ops I =
     \<lparr>is_random_access_iterator = False,
      is_sorted_iterator = is_sorted_iterator I,
      iter_item = filter_item I,
      iter_item_at = fallback_item_at (filter_item I) (fallback_forward (filter_next I)),
      iter_more = filter_more I,
      iter_len = fallback_len (filter_more I) (filter_next I),
      iter_next = filter_next I,
      iter_forward = fallback_forward (filter_next I),
      iter_prev = filter_prev I,
      iter_rewind = fallback_rewind (filter_prev I),
      iter_end = filter_end I,
      iter_neq = filter_neq I\<rparr>"

subsection \<open>hb_zip\<close>

text \<open>
  \<^verbatim>\<open>hb_zip_iter_t\<close> has the members \<^verbatim>\<open>A a; B b;\<close>, derives from \<^verbatim>\<open>hb_iter_t\<close> only and
  has \<^verbatim>\<open>hb_pair_t<typename A::item_t, typename B::item_t>\<close> as its item type.
\<close>

record ('sa, 'sb) hb_zip_iter_t =
  zip_a :: 'sa
  zip_b :: 'sb

text \<open>\<^verbatim>\<open>hb_zip_iter_t (const A& a, const B& b) : a (a), b (b) {}\<close>\<close>

definition hb_zip :: "'sa \<Rightarrow> 'sb \<Rightarrow> ('sa, 'sb) hb_zip_iter_t" where
  "hb_zip a b = \<lparr>zip_a = a, zip_b = b\<rparr>"

text \<open>\<^verbatim>\<open>__item_t__ __item__ () const { return __item_t__ (*a, *b); }\<close>\<close>

definition zip_item ::
  "('sa, 'a) hb_iter_t \<Rightarrow> ('sb, 'b) hb_iter_t \<Rightarrow> ('sa, 'sb) hb_zip_iter_t \<Rightarrow> 'a \<times> 'b" where
  "zip_item A B z = (iter_item A (zip_a z), iter_item B (zip_b z))"

text \<open>\<^verbatim>\<open>__item_t__ __item_at__ (unsigned i) const { return __item_t__ (a[i], b[i]); }\<close>\<close>

definition zip_item_at ::
  "('sa, 'a) hb_iter_t \<Rightarrow> ('sb, 'b) hb_iter_t \<Rightarrow> ('sa, 'sb) hb_zip_iter_t \<Rightarrow> unsigned \<Rightarrow>
     ('a \<times> 'b) option" where
  "zip_item_at A B z i =
     Option.bind (iter_item_at A (zip_a z) i)
       (\<lambda>x. Option.bind (iter_item_at B (zip_b z) i) (\<lambda>y. Some (x, y)))"

text \<open>\<^verbatim>\<open>bool __more__ () const { return a && b; }\<close>\<close>

definition zip_more ::
  "('sa, 'a) hb_iter_t \<Rightarrow> ('sb, 'b) hb_iter_t \<Rightarrow> ('sa, 'sb) hb_zip_iter_t \<Rightarrow> bool" where
  "zip_more A B z = (iter_more A (zip_a z) \<and> iter_more B (zip_b z))"

text \<open>\<^verbatim>\<open>unsigned __len__ () const { return hb_min (a.len (), b.len ()); }\<close>\<close>

definition zip_len ::
  "('sa, 'a) hb_iter_t \<Rightarrow> ('sb, 'b) hb_iter_t \<Rightarrow> ('sa, 'sb) hb_zip_iter_t \<Rightarrow> unsigned option" where
  "zip_len A B z =
     Option.bind (iter_len A (zip_a z))
       (\<lambda>la. Option.bind (iter_len B (zip_b z)) (\<lambda>lb. Some (hb_min la lb)))"

text \<open>\<^verbatim>\<open>void __next__ () { ++a; ++b; }\<close>\<close>

definition zip_next ::
  "('sa, 'a) hb_iter_t \<Rightarrow> ('sb, 'b) hb_iter_t \<Rightarrow> ('sa, 'sb) hb_zip_iter_t \<Rightarrow>
     ('sa, 'sb) hb_zip_iter_t option" where
  "zip_next A B z =
     Option.bind (iter_next A (zip_a z))
       (\<lambda>a'. Option.bind (iter_next B (zip_b z)) (\<lambda>b'. Some \<lparr>zip_a = a', zip_b = b'\<rparr>))"

text \<open>\<^verbatim>\<open>void __forward__ (unsigned n) { a += n; b += n; }\<close>\<close>

definition zip_forward ::
  "('sa, 'a) hb_iter_t \<Rightarrow> ('sb, 'b) hb_iter_t \<Rightarrow> ('sa, 'sb) hb_zip_iter_t \<Rightarrow> unsigned \<Rightarrow>
     ('sa, 'sb) hb_zip_iter_t option" where
  "zip_forward A B z n =
     Option.bind (iter_forward A (zip_a z) n)
       (\<lambda>a'. Option.bind (iter_forward B (zip_b z) n) (\<lambda>b'. Some \<lparr>zip_a = a', zip_b = b'\<rparr>))"

text \<open>\<^verbatim>\<open>void __prev__ () { --a; --b; }\<close>\<close>

definition zip_prev ::
  "('sa, 'a) hb_iter_t \<Rightarrow> ('sb, 'b) hb_iter_t \<Rightarrow> ('sa, 'sb) hb_zip_iter_t \<Rightarrow>
     ('sa, 'sb) hb_zip_iter_t option" where
  "zip_prev A B z =
     Option.bind (iter_prev A (zip_a z))
       (\<lambda>a'. Option.bind (iter_prev B (zip_b z)) (\<lambda>b'. Some \<lparr>zip_a = a', zip_b = b'\<rparr>))"

text \<open>\<^verbatim>\<open>void __rewind__ (unsigned n) { a -= n; b -= n; }\<close>\<close>

definition zip_rewind ::
  "('sa, 'a) hb_iter_t \<Rightarrow> ('sb, 'b) hb_iter_t \<Rightarrow> ('sa, 'sb) hb_zip_iter_t \<Rightarrow> unsigned \<Rightarrow>
     ('sa, 'sb) hb_zip_iter_t option" where
  "zip_rewind A B z n =
     Option.bind (iter_rewind A (zip_a z) n)
       (\<lambda>a'. Option.bind (iter_rewind B (zip_b z) n) (\<lambda>b'. Some \<lparr>zip_a = a', zip_b = b'\<rparr>))"

text \<open>\<^verbatim>\<open>hb_zip_iter_t __end__ () const { return hb_zip_iter_t (a.end (), b.end ()); }\<close>\<close>

definition zip_end ::
  "('sa, 'a) hb_iter_t \<Rightarrow> ('sb, 'b) hb_iter_t \<Rightarrow> ('sa, 'sb) hb_zip_iter_t \<Rightarrow>
     ('sa, 'sb) hb_zip_iter_t option" where
  "zip_end A B z =
     Option.bind (iter_end A (zip_a z))
       (\<lambda>ea. Option.bind (iter_end B (zip_b z)) (\<lambda>eb. Some (hb_zip ea eb)))"

text \<open>
  \<^verbatim>\<open>bool operator != (const hb_zip_iter_t& o) const
  { return a != o.a || b != o.b; }\<close>
\<close>

definition zip_neq ::
  "('sa, 'a) hb_iter_t \<Rightarrow> ('sb, 'b) hb_iter_t \<Rightarrow> ('sa, 'sb) hb_zip_iter_t \<Rightarrow>
     ('sa, 'sb) hb_zip_iter_t \<Rightarrow> bool" where
  "zip_neq A B z o' = (iter_neq A (zip_a z) (zip_a o') \<or> iter_neq B (zip_b z) (zip_b o'))"

definition hb_zip_ops ::
  "('sa, 'a) hb_iter_t \<Rightarrow> ('sb, 'b) hb_iter_t \<Rightarrow> (('sa, 'sb) hb_zip_iter_t, 'a \<times> 'b) hb_iter_t" where
  "hb_zip_ops A B =
     \<lparr>is_random_access_iterator = (is_random_access_iterator A \<and> is_random_access_iterator B),
      is_sorted_iterator = (is_sorted_iterator A \<and> is_sorted_iterator B),
      iter_item = zip_item A B,
      iter_item_at = zip_item_at A B,
      iter_more = zip_more A B,
      iter_len = zip_len A B,
      iter_next = zip_next A B,
      iter_forward = zip_forward A B,
      iter_prev = zip_prev A B,
      iter_rewind = zip_rewind A B,
      iter_end = zip_end A B,
      iter_neq = zip_neq A B\<rparr>"

subsection \<open>hb_enumerate\<close>

text \<open>
  \<^verbatim>\<open>hb_enumerate_iter_t\<close> has the members \<^verbatim>\<open>unsigned i; Iter it;\<close>, derives from
  \<^verbatim>\<open>hb_iter_t\<close> only and has \<^verbatim>\<open>hb_pair_t<unsigned, typename Iter::item_t>\<close> as its item
  type.
\<close>

record 's hb_enumerate_iter_t =
  enum_i :: unsigned
  enum_it :: 's

text \<open>\<^verbatim>\<open>hb_enumerate_iter_t (const Iter& it) : i (0), it (it) {}\<close>\<close>

definition hb_enumerate :: "'s \<Rightarrow> 's hb_enumerate_iter_t" where
  "hb_enumerate it = \<lparr>enum_i = 0, enum_it = it\<rparr>"

text \<open>\<^verbatim>\<open>__item_t__ __item__ () const { return __item_t__ (+i, *it); }\<close>\<close>

definition enum_item :: "('s, 'a) hb_iter_t \<Rightarrow> 's hb_enumerate_iter_t \<Rightarrow> unsigned \<times> 'a" where
  "enum_item I e = (enum_i e, iter_item I (enum_it e))"

text \<open>\<^verbatim>\<open>__item_t__ __item_at__ (unsigned j) const { return __item_t__ (i + j, it[j]); }\<close>\<close>

definition enum_item_at ::
  "('s, 'a) hb_iter_t \<Rightarrow> 's hb_enumerate_iter_t \<Rightarrow> unsigned \<Rightarrow> (unsigned \<times> 'a) option" where
  "enum_item_at I e j = map_option (\<lambda>x. (enum_i e + j, x)) (iter_item_at I (enum_it e) j)"

text \<open>\<^verbatim>\<open>bool __more__ () const { return bool (it); }\<close>\<close>

definition enum_more :: "('s, 'a) hb_iter_t \<Rightarrow> 's hb_enumerate_iter_t \<Rightarrow> bool" where
  "enum_more I e = iter_more I (enum_it e)"

text \<open>\<^verbatim>\<open>unsigned __len__ () const { return it.len (); }\<close>\<close>

definition enum_len :: "('s, 'a) hb_iter_t \<Rightarrow> 's hb_enumerate_iter_t \<Rightarrow> unsigned option" where
  "enum_len I e = iter_len I (enum_it e)"

text \<open>\<^verbatim>\<open>void __next__ () { ++i; ++it; }\<close>\<close>

definition enum_next ::
  "('s, 'a) hb_iter_t \<Rightarrow> 's hb_enumerate_iter_t \<Rightarrow> 's hb_enumerate_iter_t option" where
  "enum_next I e =
     map_option (\<lambda>it'. \<lparr>enum_i = enum_i e + 1, enum_it = it'\<rparr>) (iter_next I (enum_it e))"

text \<open>\<^verbatim>\<open>void __forward__ (unsigned n) { i += n; it += n; }\<close>\<close>

definition enum_forward ::
  "('s, 'a) hb_iter_t \<Rightarrow> 's hb_enumerate_iter_t \<Rightarrow> unsigned \<Rightarrow> 's hb_enumerate_iter_t option" where
  "enum_forward I e n =
     map_option (\<lambda>it'. \<lparr>enum_i = enum_i e + n, enum_it = it'\<rparr>) (iter_forward I (enum_it e) n)"

text \<open>\<^verbatim>\<open>void __prev__ () { --i; --it; }\<close>\<close>

definition enum_prev ::
  "('s, 'a) hb_iter_t \<Rightarrow> 's hb_enumerate_iter_t \<Rightarrow> 's hb_enumerate_iter_t option" where
  "enum_prev I e =
     map_option (\<lambda>it'. \<lparr>enum_i = enum_i e - 1, enum_it = it'\<rparr>) (iter_prev I (enum_it e))"

text \<open>\<^verbatim>\<open>void __rewind__ (unsigned n) { i -= n; it -= n; }\<close>\<close>

definition enum_rewind ::
  "('s, 'a) hb_iter_t \<Rightarrow> 's hb_enumerate_iter_t \<Rightarrow> unsigned \<Rightarrow> 's hb_enumerate_iter_t option" where
  "enum_rewind I e n =
     map_option (\<lambda>it'. \<lparr>enum_i = enum_i e - n, enum_it = it'\<rparr>) (iter_rewind I (enum_it e) n)"

text \<open>
  \<^verbatim>\<open>hb_enumerate_iter_t __end__ () const
  {
    if (is_random_access_iterator)
      return *this + this->len ();
    /* Above expression loops twice. Following loops once. */
    auto it = *this;
    while (it) ++it;
    return it;
  }\<close>
\<close>

definition enum_end ::
  "('s, 'a) hb_iter_t \<Rightarrow> 's hb_enumerate_iter_t \<Rightarrow> 's hb_enumerate_iter_t option" where
  "enum_end I e =
     (if is_random_access_iterator I
      then Option.bind (enum_len I e) (\<lambda>l. enum_forward I e l)
      else end_loop (enum_more I) (enum_next I) e)"

text \<open>
  \<^verbatim>\<open>bool operator != (const hb_enumerate_iter_t& o) const
  { return i != o.i || it != o.it; }\<close>
\<close>

definition enum_neq ::
  "('s, 'a) hb_iter_t \<Rightarrow> 's hb_enumerate_iter_t \<Rightarrow> 's hb_enumerate_iter_t \<Rightarrow> bool" where
  "enum_neq I e o' = (enum_i e \<noteq> enum_i o' \<or> iter_neq I (enum_it e) (enum_it o'))"

definition hb_enumerate_ops ::
  "('s, 'a) hb_iter_t \<Rightarrow> ('s hb_enumerate_iter_t, unsigned \<times> 'a) hb_iter_t" where
  "hb_enumerate_ops I =
     \<lparr>is_random_access_iterator = is_random_access_iterator I,
      is_sorted_iterator = True,
      iter_item = enum_item I,
      iter_item_at = enum_item_at I,
      iter_more = enum_more I,
      iter_len = enum_len I,
      iter_next = enum_next I,
      iter_forward = enum_forward I,
      iter_prev = enum_prev I,
      iter_rewind = enum_rewind I,
      iter_end = enum_end I,
      iter_neq = enum_neq I\<rparr>"

section \<open>Terminals\<close>

subsection \<open>hb_reduce\<close>

text \<open>
  \<^verbatim>\<open>AccuT operator () (Iter it)
  {
    AccuT value = init_value;
    for (; it; ++it)
      value = r (value, *it);
    return value;
  }\<close>
\<close>

partial_function (option) reduce_loop ::
  "('s, 'a) hb_iter_t \<Rightarrow> ('c \<Rightarrow> 'a \<Rightarrow> 'c) \<Rightarrow> 's \<Rightarrow> 'c \<Rightarrow> 'c option" where
  "reduce_loop I r it val =
     (if iter_more I it
      then Option.bind (iter_next I it) (\<lambda>it'. reduce_loop I r it' (r val (iter_item I it)))
      else Some val)"

definition hb_reduce ::
  "('s, 'a) hb_iter_t \<Rightarrow> ('c \<Rightarrow> 'a \<Rightarrow> 'c) \<Rightarrow> 'c \<Rightarrow> 's \<Rightarrow> 'c option" where
  "hb_reduce I r init_value it = reduce_loop I r it init_value"

subsection \<open>hb_all, hb_any, hb_none\<close>

text \<open>
  The three loops have the shape
  \<^verbatim>\<open>for (auto it = hb_iter (c); it; ++it)
    if (hb_match (hb_forward<Pred> (p), hb_get (hb_forward<Proj> (f), *it)))
      return ...;
  return ...;\<close>
  (\<^verbatim>\<open>hb_all\<close> negates the test). Each loop function returns, next to the result, the number
  of times \<^verbatim>\<open>*it\<close> was evaluated: \<open>n\<close> is that count so far. It is what a sequence
  instrumented to count its accesses observes.
\<close>

partial_function (option) all_loop ::
  "('s, 'a) hb_iter_t \<Rightarrow> ('b \<Rightarrow> bool) \<Rightarrow> ('a \<Rightarrow> 'b) \<Rightarrow> 's \<Rightarrow> nat \<Rightarrow> (bool \<times> nat) option" where
  "all_loop I p f it n =
     (if iter_more I it
      then (if \<not> hb_match p (hb_get f (iter_item I it)) then Some (False, Suc n)
            else Option.bind (iter_next I it) (\<lambda>it'. all_loop I p f it' (Suc n)))
      else Some (True, n))"

partial_function (option) any_loop ::
  "('s, 'a) hb_iter_t \<Rightarrow> ('b \<Rightarrow> bool) \<Rightarrow> ('a \<Rightarrow> 'b) \<Rightarrow> 's \<Rightarrow> nat \<Rightarrow> (bool \<times> nat) option" where
  "any_loop I p f it n =
     (if iter_more I it
      then (if hb_match p (hb_get f (iter_item I it)) then Some (True, Suc n)
            else Option.bind (iter_next I it) (\<lambda>it'. any_loop I p f it' (Suc n)))
      else Some (False, n))"

partial_function (option) none_loop ::
  "('s, 'a) hb_iter_t \<Rightarrow> ('b \<Rightarrow> bool) \<Rightarrow> ('a \<Rightarrow> 'b) \<Rightarrow> 's \<Rightarrow> nat \<Rightarrow> (bool \<times> nat) option" where
  "none_loop I p f it n =
     (if iter_more I it
      then (if hb_match p (hb_get f (iter_item I it)) then Some (False, Suc n)
            else Option.bind (iter_next I it) (\<lambda>it'. none_loop I p f it' (Suc n)))
      else Some (True, n))"

definition hb_all :: "('s, 'a) hb_iter_t \<Rightarrow> 's \<Rightarrow> ('b \<Rightarrow> bool) \<Rightarrow> ('a \<Rightarrow> 'b) \<Rightarrow> bool option" where
  "hb_all I c p f = map_option fst (all_loop I p f c 0)"

definition hb_any :: "('s, 'a) hb_iter_t \<Rightarrow> 's \<Rightarrow> ('b \<Rightarrow> bool) \<Rightarrow> ('a \<Rightarrow> 'b) \<Rightarrow> bool option" where
  "hb_any I c p f = map_option fst (any_loop I p f c 0)"

definition hb_none :: "('s, 'a) hb_iter_t \<Rightarrow> 's \<Rightarrow> ('b \<Rightarrow> bool) \<Rightarrow> ('a \<Rightarrow> 'b) \<Rightarrow> bool option" where
  "hb_none I c p f = map_option fst (none_loop I p f c 0)"

text \<open>The executable equations of the loops.\<close>

declare fallback_len_loop.simps [code]
declare end_loop.simps [code]
declare items.simps [code]
declare filter_skip.simps [code]
declare reduce_loop.simps [code]
declare all_loop.simps [code]
declare any_loop.simps [code]
declare none_loop.simps [code]

section \<open>Positions and example sequences\<close>

text \<open>
  \<open>first_at I g it k\<close>: the sequence at \<open>it\<close> has an item at each of the positions
  \<open>0, ..., k\<close>, the item at position \<open>k\<close> satisfies \<open>g\<close> and no earlier one does. Nothing
  is said about the sequence after position \<open>k\<close>: it may go on for ever.
\<close>

fun first_at :: "('s, 'a) hb_iter_t \<Rightarrow> ('a \<Rightarrow> bool) \<Rightarrow> 's \<Rightarrow> nat \<Rightarrow> bool" where
  "first_at I g it 0 = (iter_more I it \<and> g (iter_item I it))"
| "first_at I g it (Suc k) =
     (iter_more I it \<and> \<not> g (iter_item I it) \<and>
      (case iter_next I it of None \<Rightarrow> False | Some it' \<Rightarrow> first_at I g it' k))"

text \<open>
  Modelled from the spec: the unbounded sequence of the short-circuit property of \<section>8 is
  not in the sources. This one is a sequential iterator over \<open>0, 1, 2, ...\<close> that implements
  \<^verbatim>\<open>__item__\<close>, \<^verbatim>\<open>__more__\<close> (always true) and \<^verbatim>\<open>__next__\<close>, takes the other methods from
  \<^verbatim>\<open>hb_iter_fallback_mixin_t\<close>, and cannot go backwards.
\<close>

definition unbounded_ops :: "(nat, nat) hb_iter_t" where
  "unbounded_ops =
     \<lparr>is_random_access_iterator = False,
      is_sorted_iterator = True,
      iter_item = (\<lambda>n. n),
      iter_item_at = fallback_item_at (\<lambda>n. n) (fallback_forward (\<lambda>n. Some (Suc n))),
      iter_more = (\<lambda>n. True),
      iter_len = fallback_len (\<lambda>n. True) (\<lambda>n. Some (Suc n)),
      iter_next = (\<lambda>n. Some (Suc n)),
      iter_forward = fallback_forward (\<lambda>n. Some (Suc n)),
      iter_prev = (\<lambda>n. None),
      iter_rewind = (\<lambda>n k. None),
      iter_end = end_loop (\<lambda>n. True) (\<lambda>n. Some (Suc n)),
      iter_neq = (\<lambda>n m. n \<noteq> m)\<rparr>"

section \<open>Properties\<close>

subsection \<open>Finite traversals\<close>

lemma items_Nil_iff: "items I it = Some [] \<longleftrightarrow> \<not> iter_more I it"
  by (subst items.simps) (auto simp: bind_eq_Some_conv)

lemma items_Cons_iff:
  "items I it = Some (x # xs) \<longleftrightarrow>
     iter_more I it \<and> iter_item I it = x \<and>
     (\<exists>it'. iter_next I it = Some it' \<and> items I it' = Some xs)"
  by (subst items.simps) (auto simp: bind_eq_Some_conv)

lemma iota_0_10_3: "hb_iota 0 10 3 = Some \<lparr>iota_v = 0, iota_end = 12, iota_step = 3\<rparr>"
  by (simp add: hb_iota_def end_for_def)

lemma items_iota_0_10_3:
  "items hb_iota_ops \<lparr>iota_v = 0, iota_end = 12, iota_step = 3\<rparr> = Some [0, 3, 6, 9]"
  by (simp add: items.simps hb_iota_ops_def iota_more_def iota_next_def iota_item_def)

subsection \<open>Reduce\<close>

lemma reduce_loop_items:
  "items I it = Some xs \<Longrightarrow> reduce_loop I r it val = Some (foldl r val xs)"
proof (induction xs arbitrary: it val)
  case Nil
  then have "\<not> iter_more I it" by (simp add: items_Nil_iff)
  then show ?case by (subst reduce_loop.simps) simp
next
  case (Cons x xs)
  then obtain it' where m: "iter_more I it" and i: "iter_item I it = x"
    and n: "iter_next I it = Some it'" and r: "items I it' = Some xs"
    by (auto simp: items_Cons_iff)
  from Cons.IH [OF r] m i n show ?case
    by (subst reduce_loop.simps) simp
qed

text \<open>
  C6. For a finite sequence with items \<open>xs\<close> (in traversal order), \<open>hb_reduce\<close> returns the
  left fold \<open>foldl r init_value xs\<close>: the accumulator starts at \<open>init_value\<close> and becomes
  \<open>r acc item\<close> once per item, in order. On an exhausted (empty) sequence it returns
  \<open>init_value\<close> unchanged.
\<close>

theorem hb_reduce_left_fold:
  "(items I it = Some xs \<longrightarrow> hb_reduce I r init_value it = Some (foldl r init_value xs)) \<and>
   (\<not> iter_more I it \<longrightarrow> hb_reduce I r init_value it = Some init_value)"
proof (intro conjI impI)
  assume "items I it = Some xs"
  then show "hb_reduce I r init_value it = Some (foldl r init_value xs)"
    by (simp add: hb_reduce_def reduce_loop_items)
next
  assume "\<not> iter_more I it"
  then show "hb_reduce I r init_value it = Some init_value"
    unfolding hb_reduce_def by (subst reduce_loop.simps) simp
qed

theorem hb_reduce_left_fold_witness:
  "items hb_iota_ops \<lparr>iota_v = 0, iota_end = 12, iota_step = 3\<rparr> = Some [0, 3, 6, 9] \<and>
   hb_reduce hb_iota_ops (+) 0 \<lparr>iota_v = 0, iota_end = 12, iota_step = 3\<rparr> = Some 18 \<and>
   \<not> iter_more hb_iota_ops \<lparr>iota_v = 12, iota_end = 12, iota_step = 3\<rparr> \<and>
   hb_reduce hb_iota_ops (+) 0 \<lparr>iota_v = 12, iota_end = 12, iota_step = 3\<rparr> = Some 0"
  using hb_reduce_left_fold [of hb_iota_ops "\<lparr>iota_v = 0, iota_end = 12, iota_step = 3\<rparr>"
      "[0, 3, 6, 9]" "(+)" 0]
    hb_reduce_left_fold [of hb_iota_ops "\<lparr>iota_v = 12, iota_end = 12, iota_step = 3\<rparr>"
      "[]" "(+)" 0]
    items_iota_0_10_3
  by (simp add: hb_iota_ops_def iota_more_def)

subsection \<open>All, any, none\<close>

lemma any_loop_first_at:
  "first_at I (\<lambda>x. p (f x)) it k \<Longrightarrow> any_loop I p f it n = Some (True, n + Suc k)"
proof (induction k arbitrary: it n)
  case 0
  then show ?case by (subst any_loop.simps) (simp add: hb_match_def hb_get_def)
next
  case (Suc k)
  then obtain it' where n: "iter_next I it = Some it'" and r: "first_at I (\<lambda>x. p (f x)) it' k"
    and m: "iter_more I it" and g: "\<not> p (f (iter_item I it))"
    by (auto split: option.splits)
  from Suc.IH [OF r, of "Suc n"] n m g show ?case
    by (subst any_loop.simps) (simp add: hb_match_def hb_get_def)
qed

lemma none_loop_first_at:
  "first_at I (\<lambda>x. p (f x)) it k \<Longrightarrow> none_loop I p f it n = Some (False, n + Suc k)"
proof (induction k arbitrary: it n)
  case 0
  then show ?case by (subst none_loop.simps) (simp add: hb_match_def hb_get_def)
next
  case (Suc k)
  then obtain it' where n: "iter_next I it = Some it'" and r: "first_at I (\<lambda>x. p (f x)) it' k"
    and m: "iter_more I it" and g: "\<not> p (f (iter_item I it))"
    by (auto split: option.splits)
  from Suc.IH [OF r, of "Suc n"] n m g show ?case
    by (subst none_loop.simps) (simp add: hb_match_def hb_get_def)
qed

lemma all_loop_first_at:
  "first_at I (\<lambda>x. \<not> p (f x)) it k \<Longrightarrow> all_loop I p f it n = Some (False, n + Suc k)"
proof (induction k arbitrary: it n)
  case 0
  then show ?case by (subst all_loop.simps) (simp add: hb_match_def hb_get_def)
next
  case (Suc k)
  then obtain it' where n: "iter_next I it = Some it'" and r: "first_at I (\<lambda>x. \<not> p (f x)) it' k"
    and m: "iter_more I it" and g: "p (f (iter_item I it))"
    by (auto split: option.splits)
  from Suc.IH [OF r, of "Suc n"] n m g show ?case
    by (subst all_loop.simps) (simp add: hb_match_def hb_get_def)
qed

lemma any_loop_items:
  "items I it = Some xs \<Longrightarrow>
   map_option fst (any_loop I p f it n) = Some (\<exists>x\<in>set xs. p (f x))"
proof (induction xs arbitrary: it n)
  case Nil
  then have "\<not> iter_more I it" by (simp add: items_Nil_iff)
  then show ?case by (subst any_loop.simps) simp
next
  case (Cons x xs)
  then obtain it' where m: "iter_more I it" and i: "iter_item I it = x"
    and n: "iter_next I it = Some it'" and r: "items I it' = Some xs"
    by (auto simp: items_Cons_iff)
  from Cons.IH [OF r, of "Suc n"] m i n show ?case
    by (subst any_loop.simps) (simp add: hb_match_def hb_get_def)
qed

lemma none_loop_items:
  "items I it = Some xs \<Longrightarrow>
   map_option fst (none_loop I p f it n) = Some (\<not> (\<exists>x\<in>set xs. p (f x)))"
proof (induction xs arbitrary: it n)
  case Nil
  then have "\<not> iter_more I it" by (simp add: items_Nil_iff)
  then show ?case by (subst none_loop.simps) simp
next
  case (Cons x xs)
  then obtain it' where m: "iter_more I it" and i: "iter_item I it = x"
    and n: "iter_next I it = Some it'" and r: "items I it' = Some xs"
    by (auto simp: items_Cons_iff)
  from Cons.IH [OF r, of "Suc n"] m i n show ?case
    by (subst none_loop.simps) (simp add: hb_match_def hb_get_def)
qed

lemma all_loop_items:
  "items I it = Some xs \<Longrightarrow>
   map_option fst (all_loop I p f it n) = Some (\<forall>x\<in>set xs. p (f x))"
proof (induction xs arbitrary: it n)
  case Nil
  then have "\<not> iter_more I it" by (simp add: items_Nil_iff)
  then show ?case by (subst all_loop.simps) simp
next
  case (Cons x xs)
  then obtain it' where m: "iter_more I it" and i: "iter_item I it = x"
    and n: "iter_next I it = Some it'" and r: "items I it' = Some xs"
    by (auto simp: items_Cons_iff)
  from Cons.IH [OF r, of "Suc n"] m i n show ?case
    by (subst all_loop.simps) (simp add: hb_match_def hb_get_def)
qed

text \<open>
  C5. When the first item that matches \<open>p \<circ> f\<close> is at position \<open>k\<close>, \<open>hb_any\<close> returns true
  and \<open>hb_none\<close> returns false after evaluating \<^verbatim>\<open>*it\<close> exactly \<open>k + 1\<close> times (the items up
  to and including that one); when the first item that fails \<open>p \<circ> f\<close> is at position \<open>k\<close>,
  \<open>hb_all\<close> returns false after exactly \<open>k + 1\<close> items. The hypothesis constrains the first
  \<open>k + 1\<close> positions only, so the loops return whatever follows, also on a sequence without
  end.
\<close>

theorem short_circuit:
  "(first_at I (\<lambda>x. p (f x)) it k \<longrightarrow>
      any_loop I p f it 0 = Some (True, Suc k) \<and> hb_any I it p f = Some True \<and>
      none_loop I p f it 0 = Some (False, Suc k) \<and> hb_none I it p f = Some False) \<and>
   (first_at I (\<lambda>x. \<not> p (f x)) it k \<longrightarrow>
      all_loop I p f it 0 = Some (False, Suc k) \<and> hb_all I it p f = Some False)"
  by (simp add: hb_any_def hb_none_def hb_all_def any_loop_first_at none_loop_first_at
      all_loop_first_at)

text \<open>
  On the unbounded sequence, \<open>hb_any\<close> with the always-true predicate returns true after one
  item, and \<open>hb_all\<close> with \<open>x < 2\<close> returns false after the three items \<open>0, 1, 2\<close>.
\<close>

theorem short_circuit_witness:
  "first_at unbounded_ops (\<lambda>x. True) 0 0 \<and>
   any_loop unbounded_ops (\<lambda>x. True) (\<lambda>x. x) 0 0 = Some (True, 1) \<and>
   hb_any unbounded_ops 0 (\<lambda>x. True) (\<lambda>x. x) = Some True \<and>
   hb_none unbounded_ops 0 (\<lambda>x. True) (\<lambda>x. x) = Some False \<and>
   first_at unbounded_ops (\<lambda>x. \<not> x < 2) 0 2 \<and>
   all_loop unbounded_ops (\<lambda>x. x < 2) (\<lambda>x. x) 0 0 = Some (False, 3) \<and>
   hb_all unbounded_ops 0 (\<lambda>x. x < 2) (\<lambda>x. x) = Some False"
  using short_circuit [of unbounded_ops "\<lambda>x. True" "\<lambda>x. x" 0 0]
    short_circuit [of unbounded_ops "\<lambda>x. x < 2" "\<lambda>x. x" 0 2]
  by (simp add: unbounded_ops_def numeral_2_eq_2)

text \<open>
  C8. On a finite sequence the three terminals return, \<open>hb_none\<close> returns the negation of
  what \<open>hb_any\<close> returns, and \<open>hb_all\<close> with \<open>p\<close> returns what \<open>hb_none\<close> returns with the
  negated predicate.
\<close>

theorem none_any_all:
  assumes "items I it = Some xs"
  shows "\<exists>b. hb_any I it p f = Some b \<and> hb_none I it p f = Some (\<not> b) \<and>
             hb_all I it p f = hb_none I it (\<lambda>x. \<not> p x) f \<and> hb_all I it p f \<noteq> None"
  using assms
  by (simp add: hb_any_def hb_none_def hb_all_def any_loop_items none_loop_items all_loop_items)

theorem none_any_all_witness:
  "items hb_iota_ops \<lparr>iota_v = 0, iota_end = 12, iota_step = 3\<rparr> = Some [0, 3, 6, 9] \<and>
   (\<exists>b. hb_any hb_iota_ops \<lparr>iota_v = 0, iota_end = 12, iota_step = 3\<rparr> (\<lambda>x. 5 < x) (\<lambda>x. x) = Some b \<and>
        hb_none hb_iota_ops \<lparr>iota_v = 0, iota_end = 12, iota_step = 3\<rparr> (\<lambda>x. 5 < x) (\<lambda>x. x) = Some (\<not> b) \<and>
        hb_all hb_iota_ops \<lparr>iota_v = 0, iota_end = 12, iota_step = 3\<rparr> (\<lambda>x. 5 < x) (\<lambda>x. x) =
        hb_none hb_iota_ops \<lparr>iota_v = 0, iota_end = 12, iota_step = 3\<rparr> (\<lambda>x. \<not> 5 < x) (\<lambda>x. x) \<and>
        hb_all hb_iota_ops \<lparr>iota_v = 0, iota_end = 12, iota_step = 3\<rparr> (\<lambda>x. 5 < x) (\<lambda>x. x) \<noteq> None)"
  using none_any_all [OF items_iota_0_10_3, of "\<lambda>x. 5 < x" "\<lambda>x. x"] items_iota_0_10_3
  by simp

subsection \<open>Filter: construction\<close>

lemma filter_skip_items:
  "items I it = Some xs \<Longrightarrow>
   \<exists>it'. filter_skip I p f it = Some it' \<and>
         advance I (length (takeWhile (\<lambda>x. \<not> p (f x)) xs)) it = Some it' \<and>
         items I it' = Some (dropWhile (\<lambda>x. \<not> p (f x)) xs)"
proof (induction xs arbitrary: it)
  case Nil
  then have "\<not> iter_more I it" by (simp add: items_Nil_iff)
  with Nil show ?case by (subst filter_skip.simps) simp
next
  case (Cons x xs)
  then obtain it1 where m: "iter_more I it" and i: "iter_item I it = x"
    and n: "iter_next I it = Some it1" and r: "items I it1 = Some xs"
    by (auto simp: items_Cons_iff)
  show ?case
  proof (cases "p (f x)")
    case True
    with m i Cons.prems show ?thesis
      by (subst filter_skip.simps) (simp add: hb_has_def hb_get_def)
  next
    case False
    with Cons.IH [OF r] m i n show ?thesis
      by (subst filter_skip.simps) (simp add: hb_has_def hb_get_def)
  qed
qed

lemma filter_skip_first_at:
  "first_at I (\<lambda>x. p (f x)) it k \<Longrightarrow>
   \<exists>it'. filter_skip I p f it = Some it' \<and> advance I k it = Some it' \<and>
         iter_more I it' \<and> p (f (iter_item I it'))"
proof (induction k arbitrary: it)
  case 0
  then show ?case by (subst filter_skip.simps) (simp add: hb_has_def hb_get_def)
next
  case (Suc k)
  then obtain it1 where n: "iter_next I it = Some it1" and r: "first_at I (\<lambda>x. p (f x)) it1 k"
    and m: "iter_more I it" and g: "\<not> p (f (iter_item I it))"
    by (auto split: option.splits)
  from Suc.IH [OF r] n m g show ?case
    by (subst filter_skip.simps) (simp add: hb_has_def hb_get_def)
qed

lemma items_more_hd:
  "items I it = Some xs \<Longrightarrow> iter_more I it = (xs \<noteq> []) \<and> (xs \<noteq> [] \<longrightarrow> iter_item I it = hd xs)"
  by (cases xs) (auto simp: items_Nil_iff items_Cons_iff)

text \<open>
  C9. On a finite sequence with items \<open>xs\<close> the constructor of the filter iterator returns,
  with the input advanced past exactly the leading items that fail \<open>p \<circ> f\<close>; the filter
  iterator has more items if and only if some item of \<open>xs\<close> matches, and then its current
  item matches. So when no item matches it is exhausted right after construction, and the
  constructor has returned an iterator, not an error. When the first match is at position
  \<open>k\<close> (on a finite sequence or not), the constructor leaves the input at position \<open>k\<close>.
\<close>

theorem hb_filter_eager:
  "(items I it = Some xs \<longrightarrow>
      (\<exists>ft. hb_filter I it p f = Some ft \<and> filter_p ft = p \<and> filter_f ft = f \<and>
            advance I (length (takeWhile (\<lambda>x. \<not> p (f x)) xs)) it = Some (filter_it ft) \<and>
            items I (filter_it ft) = Some (dropWhile (\<lambda>x. \<not> p (f x)) xs) \<and>
            (filter_more I ft \<longleftrightarrow> (\<exists>x\<in>set xs. p (f x))) \<and>
            (filter_more I ft \<longrightarrow> p (f (filter_item I ft))))) \<and>
   (first_at I (\<lambda>x. p (f x)) it k \<longrightarrow>
      (\<exists>ft. hb_filter I it p f = Some ft \<and> advance I k it = Some (filter_it ft) \<and>
            filter_more I ft \<and> p (f (filter_item I ft))))"
proof (intro conjI impI)
  assume fin: "items I it = Some xs"
  let ?n = "\<lambda>x. \<not> p (f x)"
  from filter_skip_items [OF fin, of p f] obtain it' where
    s: "filter_skip I p f it = Some it'" and
    a: "advance I (length (takeWhile ?n xs)) it = Some it'" and
    d: "items I it' = Some (dropWhile ?n xs)"
    by blast
  have mh: "iter_more I it' = (dropWhile ?n xs \<noteq> [])"
    "dropWhile ?n xs \<noteq> [] \<Longrightarrow> iter_item I it' = hd (dropWhile ?n xs)"
    using items_more_hd [OF d] by auto
  have e: "(dropWhile ?n xs \<noteq> []) = (\<exists>x\<in>set xs. p (f x))"
    by (auto simp: dropWhile_eq_Nil_conv)
  have h: "dropWhile ?n xs \<noteq> [] \<Longrightarrow> p (f (hd (dropWhile ?n xs)))"
    using hd_dropWhile [of ?n xs] by simp
  show "\<exists>ft. hb_filter I it p f = Some ft \<and> filter_p ft = p \<and> filter_f ft = f \<and>
            advance I (length (takeWhile ?n xs)) it = Some (filter_it ft) \<and>
            items I (filter_it ft) = Some (dropWhile ?n xs) \<and>
            (filter_more I ft \<longleftrightarrow> (\<exists>x\<in>set xs. p (f x))) \<and>
            (filter_more I ft \<longrightarrow> p (f (filter_item I ft)))"
    using s a d mh e h by (simp add: hb_filter_def filter_more_def filter_item_def)
next
  assume "first_at I (\<lambda>x. p (f x)) it k"
  with filter_skip_first_at [of I p f it k] obtain it' where
    "filter_skip I p f it = Some it'" "advance I k it = Some it'"
    "iter_more I it'" "p (f (iter_item I it'))"
    by blast
  then show "\<exists>ft. hb_filter I it p f = Some ft \<and> advance I k it = Some (filter_it ft) \<and>
            filter_more I ft \<and> p (f (filter_item I ft))"
    by (simp add: hb_filter_def filter_more_def filter_item_def)
qed

theorem hb_filter_eager_witness:
  "items hb_iota_ops \<lparr>iota_v = 0, iota_end = 12, iota_step = 3\<rparr> = Some [0, 3, 6, 9] \<and>
   (\<exists>ft. hb_filter hb_iota_ops \<lparr>iota_v = 0, iota_end = 12, iota_step = 3\<rparr> (\<lambda>x. 20 < x) (\<lambda>x. x) = Some ft \<and>
         \<not> filter_more hb_iota_ops ft) \<and>
   first_at hb_iota_ops (\<lambda>x. 5 < x) \<lparr>iota_v = 0, iota_end = 12, iota_step = 3\<rparr> (Suc (Suc 0)) \<and>
   (\<exists>ft. hb_filter hb_iota_ops \<lparr>iota_v = 0, iota_end = 12, iota_step = 3\<rparr> (\<lambda>x. 5 < x) (\<lambda>x. x) = Some ft \<and>
         advance hb_iota_ops (Suc (Suc 0)) \<lparr>iota_v = 0, iota_end = 12, iota_step = 3\<rparr> = Some (filter_it ft) \<and>
         filter_more hb_iota_ops ft \<and> 5 < filter_item hb_iota_ops ft)"
proof -
  let ?it = "\<lparr>iota_v = 0, iota_end = 12, iota_step = 3\<rparr>"
  have fin: "items hb_iota_ops ?it = Some [0, 3, 6, 9]"
    by (rule items_iota_0_10_3)
  have fst: "first_at hb_iota_ops (\<lambda>x. 5 < x) ?it (Suc (Suc 0))"
    by (simp add: hb_iota_ops_def iota_more_def iota_next_def iota_item_def)
  have none: "\<not> (\<exists>x\<in>set [0, 3, 6, 9 :: unsigned]. 20 < x)"
    by simp
  from hb_filter_eager [of hb_iota_ops ?it "[0, 3, 6, 9]" "\<lambda>x. 20 < x" "\<lambda>x. x" 0] fin none
  have a: "\<exists>ft. hb_filter hb_iota_ops ?it (\<lambda>x. 20 < x) (\<lambda>x. x) = Some ft \<and>
         \<not> filter_more hb_iota_ops ft"
    by blast
  from hb_filter_eager [of hb_iota_ops ?it "[0, 3, 6, 9]" "\<lambda>x. 5 < x" "\<lambda>x. x" "Suc (Suc 0)"] fst
  have b: "\<exists>ft. hb_filter hb_iota_ops ?it (\<lambda>x. 5 < x) (\<lambda>x. x) = Some ft \<and>
         advance hb_iota_ops (Suc (Suc 0)) ?it = Some (filter_it ft) \<and>
         filter_more hb_iota_ops ft \<and> 5 < filter_item hb_iota_ops ft"
    by blast
  from fin a fst b show ?thesis by blast
qed

subsection \<open>Zip\<close>

lemma items_zip:
  "items A a = Some xs \<Longrightarrow> items B b = Some ys \<Longrightarrow>
   items (hb_zip_ops A B) (hb_zip a b) = Some (zip xs ys)"
proof (induction xs arbitrary: ys a b)
  case Nil
  then have "\<not> iter_more A a" by (simp add: items_Nil_iff)
  then show ?case
    by (simp add: items_Nil_iff hb_zip_ops_def zip_more_def hb_zip_def)
next
  case (Cons x xs)
  from Cons.prems(1) obtain a' where ma: "iter_more A a" and ia: "iter_item A a = x"
    and na: "iter_next A a = Some a'" and ra: "items A a' = Some xs"
    by (auto simp: items_Cons_iff)
  show ?case
  proof (cases ys)
    case Nil
    with Cons.prems(2) have "\<not> iter_more B b" by (simp add: items_Nil_iff)
    with Nil show ?thesis
      by (simp add: items_Nil_iff hb_zip_ops_def zip_more_def hb_zip_def)
  next
    case (Cons y ys')
    with Cons.prems(2) obtain b' where mb: "iter_more B b" and ib: "iter_item B b = y"
      and nb: "iter_next B b = Some b'" and rb: "items B b' = Some ys'"
      by (auto simp: items_Cons_iff)
    have "items (hb_zip_ops A B) (hb_zip a' b') = Some (zip xs ys')"
      by (rule Cons.IH [OF ra rb])
    with ma ia na mb ib nb Cons show ?thesis
      by (simp add: items_Cons_iff hb_zip_ops_def zip_more_def zip_item_def zip_next_def
          hb_zip_def)
  qed
qed

lemma items_iota_5_7_1:
  "items hb_iota_ops \<lparr>iota_v = 5, iota_end = 7, iota_step = 1\<rparr> = Some [5, 6]"
  by (simp add: items.simps hb_iota_ops_def iota_more_def iota_next_def iota_item_def)

text \<open>
  C4. For finite \<open>a\<close> and \<open>b\<close> with items \<open>xs\<close> and \<open>ys\<close>, the zip iterator yields the
  pairs \<open>zip xs ys\<close>: the item at each position pairs the items of \<open>a\<close> and \<open>b\<close> at that
  position, and there are \<open>min (length xs) (length ys)\<close> of them. Its current item is the
  pair of the current items, it is exhausted exactly when \<open>a\<close> or \<open>b\<close> is, and its
  \<^verbatim>\<open>__len__\<close> is the minimum of the two lengths.
\<close>

theorem zip_pairs_min:
  assumes "items A a = Some xs" and "items B b = Some ys"
  shows "items (hb_zip_ops A B) (hb_zip a b) = Some (zip xs ys) \<and>
         length (zip xs ys) = min (length xs) (length ys) \<and>
         iter_item (hb_zip_ops A B) (hb_zip a b) = (iter_item A a, iter_item B b) \<and>
         (\<not> iter_more (hb_zip_ops A B) (hb_zip a b) \<longleftrightarrow> \<not> iter_more A a \<or> \<not> iter_more B b) \<and>
         (iter_len A a = Some la \<and> iter_len B b = Some lb \<longrightarrow>
            iter_len (hb_zip_ops A B) (hb_zip a b) = Some (min la lb))"
proof -
  have "items (hb_zip_ops A B) (hb_zip a b) = Some (zip xs ys)"
    using assms by (rule items_zip)
  moreover have "iter_item (hb_zip_ops A B) (hb_zip a b) = (iter_item A a, iter_item B b)"
    by (simp add: hb_zip_ops_def hb_zip_def zip_item_def)
  moreover have "\<not> iter_more (hb_zip_ops A B) (hb_zip a b) \<longleftrightarrow>
      \<not> iter_more A a \<or> \<not> iter_more B b"
    by (simp add: hb_zip_ops_def hb_zip_def zip_more_def)
  moreover have "iter_len A a = Some la \<and> iter_len B b = Some lb \<longrightarrow>
      iter_len (hb_zip_ops A B) (hb_zip a b) = Some (min la lb)"
    by (simp add: hb_zip_ops_def hb_zip_def zip_len_def hb_min_def min_def)
  ultimately show ?thesis by simp
qed

theorem zip_pairs_min_witness:
  "items hb_iota_ops \<lparr>iota_v = 0, iota_end = 12, iota_step = 3\<rparr> = Some [0, 3, 6, 9] \<and>
   items hb_iota_ops \<lparr>iota_v = 5, iota_end = 7, iota_step = 1\<rparr> = Some [5, 6] \<and>
   items (hb_zip_ops hb_iota_ops hb_iota_ops)
     (hb_zip \<lparr>iota_v = 0, iota_end = 12, iota_step = 3\<rparr> \<lparr>iota_v = 5, iota_end = 7, iota_step = 1\<rparr>) =
     Some [(0, 5), (3, 6)] \<and>
   iter_len hb_iota_ops \<lparr>iota_v = 0, iota_end = 12, iota_step = 3\<rparr> = Some 4 \<and>
   iter_len hb_iota_ops \<lparr>iota_v = 5, iota_end = 7, iota_step = 1\<rparr> = Some 2 \<and>
   iter_len (hb_zip_ops hb_iota_ops hb_iota_ops)
     (hb_zip \<lparr>iota_v = 0, iota_end = 12, iota_step = 3\<rparr> \<lparr>iota_v = 5, iota_end = 7, iota_step = 1\<rparr>) =
     Some 2"
proof -
  have la: "iter_len hb_iota_ops \<lparr>iota_v = 0, iota_end = 12, iota_step = 3\<rparr> = Some 4"
    by (simp add: hb_iota_ops_def iota_len_def)
  have lb: "iter_len hb_iota_ops \<lparr>iota_v = 5, iota_end = 7, iota_step = 1\<rparr> = Some 2"
    by (simp add: hb_iota_ops_def iota_len_def)
  from zip_pairs_min [OF items_iota_0_10_3 items_iota_5_7_1, of 4 2] la lb
    items_iota_0_10_3 items_iota_5_7_1
  show ?thesis by simp
qed

subsection \<open>Zip: end\<close>

lemma items_advance:
  "items I it = Some xs \<Longrightarrow> n \<le> length xs \<Longrightarrow>
   \<exists>it'. advance I n it = Some it' \<and> items I it' = Some (drop n xs)"
proof (induction n arbitrary: it xs)
  case 0
  then show ?case by simp
next
  case (Suc n)
  then obtain x xs' where xs: "xs = x # xs'" by (cases xs) auto
  with Suc.prems obtain it1 where n: "iter_next I it = Some it1" and r: "items I it1 = Some xs'"
    by (auto simp: items_Cons_iff)
  from Suc.IH [OF r] Suc.prems(2) xs n show ?case by simp
qed

lemma end_loop_items:
  "items I it = Some xs \<Longrightarrow>
   \<exists>e. end_loop (iter_more I) (iter_next I) it = Some e \<and>
       advance I (length xs) it = Some e \<and> \<not> iter_more I e"
proof (induction xs arbitrary: it)
  case Nil
  then have "\<not> iter_more I it" by (simp add: items_Nil_iff)
  then show ?case by (subst end_loop.simps) simp
next
  case (Cons x xs)
  then obtain it1 where m: "iter_more I it"
    and n: "iter_next I it = Some it1" and r: "items I it1 = Some xs"
    by (auto simp: items_Cons_iff)
  from Cons.IH [OF r] m n show ?case
    by (subst end_loop.simps) simp
qed

lemma advance_zip:
  "advance A n a = Some a' \<Longrightarrow> advance B n b = Some b' \<Longrightarrow>
   advance (hb_zip_ops A B) n (hb_zip a b) = Some (hb_zip a' b')"
proof (induction n arbitrary: a b)
  case 0
  then show ?case by simp
next
  case (Suc n)
  then obtain a1 b1 where a1: "iter_next A a = Some a1" "advance A n a1 = Some a'"
    and b1: "iter_next B b = Some b1" "advance B n b1 = Some b'"
    by (auto simp: bind_eq_Some_conv)
  from Suc.IH [OF a1(2) b1(2)] a1(1) b1(1) show ?case
    by (simp add: hb_zip_ops_def zip_next_def hb_zip_def)
qed

text \<open>
  C10. Let \<open>a\<close> and \<open>b\<close> be finite with different numbers of items, let their own
  \<^verbatim>\<open>end ()\<close> return exhausted iterators, and let their \<^verbatim>\<open>operator !=\<close> tell an iterator
  with more items from an exhausted one. Then \<^verbatim>\<open>end ()\<close> of the zip iterator is the pair
  of \<open>a\<close>'s end and \<open>b\<close>'s end, the loop \<^verbatim>\<open>while (it) ++it;\<close> from the start of the zip
  iterator returns an exhausted iterator, and that iterator compares different from
  \<^verbatim>\<open>end ()\<close>.
\<close>

theorem zip_end_differs:
  assumes fa: "items A a = Some xs" and fb: "items B b = Some ys"
    and ne: "length xs \<noteq> length ys"
    and ea: "iter_end A a = Some ea" and eb: "iter_end B b = Some eb"
    and xa: "\<not> iter_more A ea" and xb: "\<not> iter_more B eb"
    and na: "\<And>x y. iter_more A x \<noteq> iter_more A y \<Longrightarrow> iter_neq A x y"
    and nb: "\<And>x y. iter_more B x \<noteq> iter_more B y \<Longrightarrow> iter_neq B x y"
  shows "iter_end (hb_zip_ops A B) (hb_zip a b) = Some (hb_zip ea eb) \<and>
         (\<exists>zx. end_loop (iter_more (hb_zip_ops A B)) (iter_next (hb_zip_ops A B)) (hb_zip a b) =
                 Some zx \<and>
               \<not> iter_more (hb_zip_ops A B) zx \<and>
               iter_neq (hb_zip_ops A B) zx (hb_zip ea eb))"
proof -
  let ?Z = "hb_zip_ops A B"
  let ?n = "min (length xs) (length ys)"
  have e: "iter_end ?Z (hb_zip a b) = Some (hb_zip ea eb)"
    using ea eb by (simp add: hb_zip_ops_def zip_end_def hb_zip_def)
  have fz: "items ?Z (hb_zip a b) = Some (zip xs ys)"
    using fa fb by (rule items_zip)
  from end_loop_items [OF fz] obtain zx where
    l: "end_loop (iter_more ?Z) (iter_next ?Z) (hb_zip a b) = Some zx" and
    az: "advance ?Z ?n (hb_zip a b) = Some zx" and
    xz: "\<not> iter_more ?Z zx"
    by auto
  from items_advance [OF fa, of ?n] obtain a' where
    a': "advance A ?n a = Some a'" "items A a' = Some (drop ?n xs)"
    by auto
  from items_advance [OF fb, of ?n] obtain b' where
    b': "advance B ?n b = Some b'" "items B b' = Some (drop ?n ys)"
    by auto
  from advance_zip [OF a'(1) b'(1)] az have zx: "zx = hb_zip a' b'"
    by simp
  from ne have "drop ?n xs \<noteq> [] \<or> drop ?n ys \<noteq> []"
    by (auto simp: min_def)
  then have "iter_more A a' \<or> iter_more B b'"
    using a'(2) b'(2) by (cases "drop ?n xs"; cases "drop ?n ys") (auto simp: items_Cons_iff)
  then have "iter_neq A a' ea \<or> iter_neq B b' eb"
    using xa xb na [of a' ea] nb [of b' eb] by auto
  then have "iter_neq ?Z zx (hb_zip ea eb)"
    by (simp add: zx hb_zip_ops_def zip_neq_def hb_zip_def)
  with e l xz show ?thesis by blast
qed


lemmas enum_iota_defs =
  hb_enumerate_ops_def hb_enumerate_def enum_more_def enum_next_def enum_item_def enum_len_def
  enum_forward_def enum_end_def enum_neq_def
  hb_iota_ops_def iota_more_def iota_next_def iota_item_def iota_len_def iota_forward_def
  iota_neq_def

theorem zip_end_differs_witness:
  "items (hb_enumerate_ops hb_iota_ops) (hb_enumerate \<lparr>iota_v = 0, iota_end = 2, iota_step = 1\<rparr>) =
     Some [(0, 0), (1, 1)] \<and>
   items (hb_enumerate_ops hb_iota_ops) (hb_enumerate \<lparr>iota_v = 0, iota_end = 3, iota_step = 1\<rparr>) =
     Some [(0, 0), (1, 1), (2, 2)] \<and>
   iter_end (hb_zip_ops (hb_enumerate_ops hb_iota_ops) (hb_enumerate_ops hb_iota_ops))
     (hb_zip (hb_enumerate \<lparr>iota_v = 0, iota_end = 2, iota_step = 1\<rparr>)
             (hb_enumerate \<lparr>iota_v = 0, iota_end = 3, iota_step = 1\<rparr>)) =
     Some (hb_zip \<lparr>enum_i = 2, enum_it = \<lparr>iota_v = 2, iota_end = 2, iota_step = 1\<rparr>\<rparr>
                  \<lparr>enum_i = 3, enum_it = \<lparr>iota_v = 3, iota_end = 3, iota_step = 1\<rparr>\<rparr>) \<and>
   (\<exists>zx. end_loop (iter_more (hb_zip_ops (hb_enumerate_ops hb_iota_ops) (hb_enumerate_ops hb_iota_ops)))
            (iter_next (hb_zip_ops (hb_enumerate_ops hb_iota_ops) (hb_enumerate_ops hb_iota_ops)))
            (hb_zip (hb_enumerate \<lparr>iota_v = 0, iota_end = 2, iota_step = 1\<rparr>)
                    (hb_enumerate \<lparr>iota_v = 0, iota_end = 3, iota_step = 1\<rparr>)) = Some zx \<and>
         \<not> iter_more (hb_zip_ops (hb_enumerate_ops hb_iota_ops) (hb_enumerate_ops hb_iota_ops)) zx \<and>
         iter_neq (hb_zip_ops (hb_enumerate_ops hb_iota_ops) (hb_enumerate_ops hb_iota_ops)) zx
           (hb_zip \<lparr>enum_i = 2, enum_it = \<lparr>iota_v = 2, iota_end = 2, iota_step = 1\<rparr>\<rparr>
                   \<lparr>enum_i = 3, enum_it = \<lparr>iota_v = 3, iota_end = 3, iota_step = 1\<rparr>\<rparr>))"
proof -
  let ?E = "hb_enumerate_ops hb_iota_ops"
  let ?a = "hb_enumerate \<lparr>iota_v = 0, iota_end = 2, iota_step = 1\<rparr>"
  let ?b = "hb_enumerate \<lparr>iota_v = 0, iota_end = 3, iota_step = 1\<rparr>"
  let ?ea = "\<lparr>enum_i = 2, enum_it = \<lparr>iota_v = 2, iota_end = 2, iota_step = 1\<rparr>\<rparr>"
  let ?eb = "\<lparr>enum_i = 3, enum_it = \<lparr>iota_v = 3, iota_end = 3, iota_step = 1\<rparr>\<rparr>"
  have fa: "items ?E ?a = Some [(0, 0), (1, 1)]"
    by (simp add: items.simps enum_iota_defs)
  have fb: "items ?E ?b = Some [(0, 0), (1, 1), (2, 2)]"
    by (simp add: items.simps enum_iota_defs)
  have ne: "length [(0 :: unsigned, 0 :: unsigned), (1, 1)] \<noteq>
      length [(0 :: unsigned, 0 :: unsigned), (1, 1), (2, 2)]"
    by simp
  have ea: "iter_end ?E ?a = Some ?ea"
    by (simp add: enum_iota_defs)
  have eb: "iter_end ?E ?b = Some ?eb"
    by (simp add: enum_iota_defs)
  have xa: "\<not> iter_more ?E ?ea"
    by (simp add: enum_iota_defs)
  have xb: "\<not> iter_more ?E ?eb"
    by (simp add: enum_iota_defs)
  have nq: "\<And>x y. iter_more ?E x \<noteq> iter_more ?E y \<Longrightarrow> iter_neq ?E x y"
    by (auto simp: enum_iota_defs)
  from zip_end_differs [OF fa fb ne ea eb xa xb nq nq] fa fb
  show ?thesis by blast
qed

subsection \<open>The Sorted flag\<close>

text \<open>
  C7. \<^verbatim>\<open>is_sorted_iterator\<close> is true for every enumerate iterator, is the input's flag for a
  filter iterator, is the conjunction of the two inputs' flags for a zip iterator, is false
  for every map iterator (the header has no way for a caller to say that the projection is
  monotonic) and is true for iota.
\<close>

theorem sorted_flags:
  "is_sorted_iterator (hb_enumerate_ops I) = True \<and>
   is_sorted_iterator (hb_filter_ops I) = is_sorted_iterator I \<and>
   is_sorted_iterator (hb_zip_ops A B) = (is_sorted_iterator A \<and> is_sorted_iterator B) \<and>
   is_sorted_iterator (hb_map_ops I) = False \<and>
   is_sorted_iterator hb_iota_ops = True"
  by (simp add: hb_enumerate_ops_def hb_filter_ops_def hb_zip_ops_def hb_map_ops_def
      hb_iota_ops_def)

subsection \<open>Filter: traversal\<close>

text \<open>Forwards, a filter iterator over a finite sequence yields the matching items, in order.\<close>

lemma items_filter_aux:
  "items I it = Some xs \<Longrightarrow> filter_skip I p f it = Some it' \<Longrightarrow>
   items (hb_filter_ops I) \<lparr>filter_it = it', filter_p = p, filter_f = f\<rparr> =
     Some (filter (\<lambda>x. p (f x)) xs)"
proof (induction xs arbitrary: it it')
  case Nil
  then have m: "\<not> iter_more I it" by (simp add: items_Nil_iff)
  with Nil.prems(2) have "it' = it" by (subst (asm) filter_skip.simps) simp
  with m show ?case by (simp add: items_Nil_iff hb_filter_ops_def filter_more_def)
next
  case (Cons x xs)
  from Cons.prems(1) obtain it1 where m: "iter_more I it" and i: "iter_item I it = x"
    and n: "iter_next I it = Some it1" and r: "items I it1 = Some xs"
    by (auto simp: items_Cons_iff)
  show ?case
  proof (cases "p (f x)")
    case True
    with Cons.prems(2) m i have eq: "it' = it"
      by (subst (asm) filter_skip.simps) (simp add: hb_has_def hb_get_def)
    from filter_skip_items [OF r, of p f] obtain it2 where
      s: "filter_skip I p f it1 = Some it2" by blast
    from Cons.IH [OF r s] True m i n s show ?thesis
      by (simp add: eq items_Cons_iff hb_filter_ops_def filter_more_def filter_item_def
          filter_next_def)
  next
    case False
    with Cons.prems(2) m i n have "filter_skip I p f it1 = Some it'"
      by (subst (asm) filter_skip.simps) (simp add: hb_has_def hb_get_def)
    from Cons.IH [OF r this] False show ?thesis by simp
  qed
qed

lemma items_filter:
  "items I it = Some xs \<Longrightarrow> hb_filter I it p f = Some ft \<Longrightarrow>
   items (hb_filter_ops I) ft = Some (filter (\<lambda>x. p (f x)) xs)"
  by (auto simp: hb_filter_def items_filter_aux)

lemma items_iota_1_4_1:
  "items hb_iota_ops \<lparr>iota_v = 1, iota_end = 4, iota_step = 1\<rparr> = Some [1, 2, 3]"
  by (simp add: items.simps hb_iota_ops_def iota_more_def iota_next_def iota_item_def)

lemmas filter_iota_defs =
  hb_filter_def hb_filter_ops_def filter_more_def filter_item_def filter_next_def filter_prev_def
  hb_has_def hb_get_def
  hb_iota_ops_def iota_more_def iota_next_def iota_prev_def iota_item_def

text \<open>
  C2. Backwards it does not: \<^verbatim>\<open>__prev__\<close> is \<^verbatim>\<open>--it\<close> alone and, unlike \<^verbatim>\<open>__next__\<close>, does
  not step over the items that fail the predicate. Over \<open>1, 2, 3\<close> with the predicate
  \<open>x \<noteq> 2\<close> the filter iterator starts at \<open>1\<close>, \<^verbatim>\<open>++\<close> takes it to \<open>3\<close>, and \<^verbatim>\<open>--\<close> then
  leaves it at \<open>2\<close>, an item that fails the predicate and that it yields as its current item.
\<close>

theorem filter_prev_keeps_rejected_item:
  "hb_iota 1 4 1 = Some \<lparr>iota_v = 1, iota_end = 4, iota_step = 1\<rparr> \<and>
   items hb_iota_ops \<lparr>iota_v = 1, iota_end = 4, iota_step = 1\<rparr> = Some [1, 2, 3] \<and>
   hb_filter hb_iota_ops \<lparr>iota_v = 1, iota_end = 4, iota_step = 1\<rparr> (\<lambda>x. x \<noteq> 2) (\<lambda>x. x) =
     Some \<lparr>filter_it = \<lparr>iota_v = 1, iota_end = 4, iota_step = 1\<rparr>,
           filter_p = (\<lambda>x. x \<noteq> 2), filter_f = (\<lambda>x. x)\<rparr> \<and>
   iter_next (hb_filter_ops hb_iota_ops)
     \<lparr>filter_it = \<lparr>iota_v = 1, iota_end = 4, iota_step = 1\<rparr>,
      filter_p = (\<lambda>x. x \<noteq> 2), filter_f = (\<lambda>x. x)\<rparr> =
     Some \<lparr>filter_it = \<lparr>iota_v = 3, iota_end = 4, iota_step = 1\<rparr>,
           filter_p = (\<lambda>x. x \<noteq> 2), filter_f = (\<lambda>x. x)\<rparr> \<and>
   iter_prev (hb_filter_ops hb_iota_ops)
     \<lparr>filter_it = \<lparr>iota_v = 3, iota_end = 4, iota_step = 1\<rparr>,
      filter_p = (\<lambda>x. x \<noteq> 2), filter_f = (\<lambda>x. x)\<rparr> =
     Some \<lparr>filter_it = \<lparr>iota_v = 2, iota_end = 4, iota_step = 1\<rparr>,
           filter_p = (\<lambda>x. x \<noteq> 2), filter_f = (\<lambda>x. x)\<rparr> \<and>
   iter_more (hb_filter_ops hb_iota_ops)
     \<lparr>filter_it = \<lparr>iota_v = 2, iota_end = 4, iota_step = 1\<rparr>,
      filter_p = (\<lambda>x. x \<noteq> 2), filter_f = (\<lambda>x. x)\<rparr> \<and>
   iter_item (hb_filter_ops hb_iota_ops)
     \<lparr>filter_it = \<lparr>iota_v = 2, iota_end = 4, iota_step = 1\<rparr>,
      filter_p = (\<lambda>x. x \<noteq> 2), filter_f = (\<lambda>x. x)\<rparr> = 2"
proof (intro conjI)
  show "hb_iota 1 4 1 = Some \<lparr>iota_v = 1, iota_end = 4, iota_step = 1\<rparr>"
    by (simp add: hb_iota_def end_for_def)
  show "items hb_iota_ops \<lparr>iota_v = 1, iota_end = 4, iota_step = 1\<rparr> = Some [1, 2, 3]"
    by (rule items_iota_1_4_1)
qed (simp_all add: filter_skip.simps filter_iota_defs)

subsection \<open>End\<close>

text \<open>
  The default \<^verbatim>\<open>__end__\<close> of the mixin and the one of the enumerate iterator: on a
  random-access type they are the current iterator advanced by its length, on any other
  type one run of the loop \<^verbatim>\<open>while (it) ++it;\<close>, which on a finite sequence with items
  \<open>xs\<close> makes \<open>length xs\<close> steps and returns an exhausted iterator.
\<close>

lemma fallback_end_sequential:
  "\<not> is_random_access_iterator I \<Longrightarrow> items I it = Some xs \<Longrightarrow>
   \<exists>e. fallback_end (is_random_access_iterator I) (iter_more I) (iter_next I)
         (iter_forward I) (iter_len I) it = Some e \<and>
       advance I (length xs) it = Some e \<and> \<not> iter_more I e"
  using end_loop_items [of I it xs] by (simp add: fallback_end_def)

lemma fallback_end_random_access:
  "is_random_access_iterator I \<Longrightarrow>
   fallback_end (is_random_access_iterator I) (iter_more I) (iter_next I)
     (iter_forward I) (iter_len I) it = Option.bind (iter_len I it) (iter_forward I it)"
  by (simp add: fallback_end_def)

lemma enum_end_random_access:
  "is_random_access_iterator I \<Longrightarrow>
   iter_end (hb_enumerate_ops I) e =
     Option.bind (iter_len (hb_enumerate_ops I) e) (iter_forward (hb_enumerate_ops I) e)"
  by (simp add: hb_enumerate_ops_def enum_end_def)

lemma enum_end_sequential:
  assumes "\<not> is_random_access_iterator I" and "items (hb_enumerate_ops I) e = Some xs"
  shows "\<exists>e'. iter_end (hb_enumerate_ops I) e = Some e' \<and>
       advance (hb_enumerate_ops I) (length xs) e = Some e' \<and>
       \<not> iter_more (hb_enumerate_ops I) e'"
proof -
  have "iter_end (hb_enumerate_ops I) e =
      end_loop (iter_more (hb_enumerate_ops I)) (iter_next (hb_enumerate_ops I)) e"
    using assms(1) by (simp add: hb_enumerate_ops_def enum_end_def)
  with end_loop_items [OF assms(2)] show ?thesis by simp
qed

text \<open>
  C1. \<^verbatim>\<open>__end__\<close> of the iota iterator has no \<^verbatim>\<open>return\<close> statement: for \<open>hb_iota 0 10 3\<close>
  it returns no value, where the current iterator advanced by its length is the iterator
  at \<open>12\<close>.
\<close>

theorem iota_end_returns_nothing:
  "hb_iota 0 10 3 = Some \<lparr>iota_v = 0, iota_end = 12, iota_step = 3\<rparr> \<and>
   iter_end hb_iota_ops \<lparr>iota_v = 0, iota_end = 12, iota_step = 3\<rparr> = None \<and>
   Option.bind (iter_len hb_iota_ops \<lparr>iota_v = 0, iota_end = 12, iota_step = 3\<rparr>)
     (iter_forward hb_iota_ops \<lparr>iota_v = 0, iota_end = 12, iota_step = 3\<rparr>) =
     Some \<lparr>iota_v = 12, iota_end = 12, iota_step = 3\<rparr>"
  by (simp add: hb_iota_def end_for_def hb_iota_ops_def iota_end_op_def iota_len_def
      iota_forward_def)

subsection \<open>Iota\<close>

lemma normalise_nat:
  fixes a b s :: nat
  assumes s: "0 < s" and ab: "a \<le> b"
  defines "e \<equiv> (if (b - a) mod s = 0 then b else b + (s - (b - a) mod s))"
  shows "b \<le> e" and "e < b + s" and "(e - a) mod s = 0"
    and "\<And>e'. b \<le> e' \<Longrightarrow> (e' - a) mod s = 0 \<Longrightarrow> e \<le> e'"
proof -
  let ?d = "b - a"
  let ?r = "?d mod s"
  have r: "?r < s" using s by simp
  show "b \<le> e" by (simp add: e_def)
  show "e < b + s" using s r by (simp add: e_def)
  have ea: "e - a = (if ?r = 0 then ?d else ?d + (s - ?r))"
    using ab by (simp add: e_def)
  have dd: "?d = s * (?d div s) + ?r" by simp
  have em: "e - a = s * (if ?r = 0 then ?d div s else Suc (?d div s))"
  proof (cases "?r = 0")
    case True
    with dd have "?d = s * (?d div s)" by simp
    with True ea show ?thesis by simp
  next
    case False
    have "?d - ?r = s * (?d div s)" by (simp add: minus_mod_eq_mult_div)
    moreover have "?r \<le> ?d" by simp
    ultimately have "?d + (s - ?r) = s * (?d div s) + s" using r by linarith
    then show ?thesis using ea False by simp
  qed
  then show "(e - a) mod s = 0" by simp
  fix e'
  assume be': "b \<le> e'" and m: "(e' - a) mod s = 0"
  then obtain q where q: "e' - a = s * q" by (auto simp: mod_eq_0_iff_dvd)
  have dle: "?d \<le> e' - a" using be' by simp
  have "e - a \<le> e' - a"
  proof (cases "?r = 0")
    case True
    then show ?thesis using ea dle by simp
  next
    case False
    have "s * (?d div s) < ?d" using dd False by linarith
    with dle q have "s * (?d div s) < s * q" by linarith
    then have "?d div s < q" using s by simp
    then have "Suc (?d div s) \<le> q" by simp
    then have "s * Suc (?d div s) \<le> s * q" by (rule mult_le_mono2)
    with em False q show ?thesis by simp
  qed
  moreover have "a \<le> e'" using ab be' by simp
  moreover have "a \<le> e" using ab \<open>b \<le> e\<close> by simp
  ultimately show "e \<le> e'" by linarith
qed

lemma end_for_unat:
  fixes start endv step :: unsigned
  assumes s: "step \<noteq> 0" and le: "start \<le> endv"
    and nov: "unat endv + (unat step - (unat endv - unat start) mod unat step) mod unat step
                < 2 ^ 32"
  shows "\<exists>e. end_for start endv step = Some e \<and>
     unat e = (if (unat endv - unat start) mod unat step = 0 then unat endv
               else unat endv + (unat step - (unat endv - unat start) mod unat step))"
proof -
  let ?res = "(endv - start) mod step"
  have ur: "unat ?res = (unat endv - unat start) mod unat step"
    by (simp add: unat_mod unat_sub [OF le])
  have sp: "0 < unat step" using s by (simp add: unat_gt_0)
  show ?thesis
  proof (cases "?res = 0")
    case True
    then have "unat ?res = 0" by simp
    with True ur s show ?thesis by (simp add: end_for_def)
  next
    case False
    then have nz: "unat ?res \<noteq> 0" by (simp add: unat_eq_zero)
    have lt: "unat ?res < unat step" using sp ur by simp
    then have "?res \<le> step" by (simp add: word_le_nat_alt)
    then have us: "unat (step - ?res) = unat step - unat ?res" by (rule unat_sub)
    have "(unat step - unat ?res) mod unat step = unat step - unat ?res"
      using lt nz by simp
    then have "unat endv + unat (step - ?res) < 2 ^ LENGTH(32)"
      using us nov ur by simp
    then have "unat (endv + (step - ?res)) = unat endv + unat (step - ?res)"
      by (rule unat_add_lem [THEN iffD1])
    with us ur nz False s show ?thesis by (simp add: end_for_def Let_def)
  qed
qed

lemma iota_items_aux:
  fixes v e s :: unsigned
  assumes "s \<noteq> 0" and "unat v + n * unat s = unat e"
  shows "items hb_iota_ops \<lparr>iota_v = v, iota_end = e, iota_step = s\<rparr> =
         Some (map (\<lambda>k. v + of_nat k * s) [0..<n])"
  using assms
proof (induction n arbitrary: v)
  case 0
  then have "v = e" by (simp add: word_unat_eq_iff)
  then show ?case
    by (simp add: items_Nil_iff hb_iota_ops_def iota_more_def)
next
  case (Suc n)
  have sp: "0 < unat s" using Suc.prems(1) by (simp add: unat_gt_0)
  have lt: "unat v + unat s \<le> unat e" using Suc.prems(2) by simp
  have "unat e < 2 ^ LENGTH(32)" by (rule unsigned_less)
  with lt have "unat v + unat s < 2 ^ LENGTH(32)" by linarith
  then have uv: "unat (v + s) = unat v + unat s" by (rule unat_add_lem [THEN iffD1])
  have ne: "v \<noteq> e" using lt sp by (auto simp: word_unat_eq_iff)
  have "unat (v + s) + n * unat s = unat e" using uv Suc.prems(2) by simp
  from Suc.IH [OF Suc.prems(1) this]
  have ih: "items hb_iota_ops \<lparr>iota_v = v + s, iota_end = e, iota_step = s\<rparr> =
         Some (map (\<lambda>k. v + s + of_nat k * s) [0..<n])" .
  have "map (\<lambda>k. v + of_nat k * s) [0..<Suc n] =
        v # map (\<lambda>k. v + s + of_nat k * s) [0..<n]"
    by (simp add: upt_conv_Cons map_Suc_upt [symmetric] algebra_simps del: upt_Suc)
  with ih ne show ?case
    by (simp add: items_Cons_iff hb_iota_ops_def iota_more_def iota_next_def iota_item_def
        del: upt_Suc)
qed

lemma iota_advance:
  "advance hb_iota_ops k \<lparr>iota_v = v, iota_end = e, iota_step = s\<rparr> =
     Some \<lparr>iota_v = v + of_nat k * s, iota_end = e, iota_step = s\<rparr>"
proof (induction k arbitrary: v)
  case 0
  then show ?case by simp
next
  case (Suc k)
  have "iter_next hb_iota_ops \<lparr>iota_v = v, iota_end = e, iota_step = s\<rparr> =
      Some \<lparr>iota_v = v + s, iota_end = e, iota_step = s\<rparr>"
    by (simp add: hb_iota_ops_def iota_next_def)
  with Suc [of "v + s"] show ?case by (simp add: algebra_simps)
qed

text \<open>
  C3, as amended. Let \<open>step \<noteq> 0\<close>, \<open>start \<le> end\<close>, and let the smallest value that is at
  least \<open>end\<close> and differs from \<open>start\<close> by a multiple of \<open>step\<close> be below \<open>2 ^ 32\<close> (third
  hypothesis), so that \<^verbatim>\<open>end += step - res\<close> does not wrap around. Then the iterator is
  built with the internal end \<open>e\<close>, where \<open>e\<close> is the smallest value \<open>\<ge> end\<close> with
  \<open>(e - start) mod step = 0\<close>; the traversal returns the items \<open>start + k * step\<close> for
  \<open>k < n\<close>, every one of them below the original \<open>end\<close>, and reaches \<open>e\<close> exactly after
  \<open>n\<close> steps; and at each position \<open>k \<le> n\<close> of the traversal \<^verbatim>\<open>__len__\<close> returns \<open>n - k\<close> with
  \<open>v + (n - k) * step = e\<close> without remainder or wrap-around.
\<close>

theorem iota_normalized:
  fixes start endv step :: unsigned
  assumes s: "step \<noteq> 0" and le: "start \<le> endv"
    and nov: "unat endv + (unat step - (unat endv - unat start) mod unat step) mod unat step
                < 2 ^ 32"
  shows "\<exists>e xs. hb_iota start endv step = Some \<lparr>iota_v = start, iota_end = e, iota_step = step\<rparr> \<and>
     endv \<le> e \<and> (e - start) mod step = 0 \<and>
     (\<forall>e'. endv \<le> e' \<and> (e' - start) mod step = 0 \<longrightarrow> e \<le> e') \<and>
     items hb_iota_ops \<lparr>iota_v = start, iota_end = e, iota_step = step\<rparr> = Some xs \<and>
     xs = map (\<lambda>k. start + of_nat k * step) [0..<length xs] \<and>
     (\<forall>x\<in>set xs. x < endv) \<and>
     start + of_nat (length xs) * step = e \<and>
     (\<forall>k\<le>length xs. \<exists>it' l.
        advance hb_iota_ops k \<lparr>iota_v = start, iota_end = e, iota_step = step\<rparr> = Some it' \<and>
        iter_len hb_iota_ops it' = Some l \<and> unat l = length xs - k \<and>
        unat (iota_v it') + unat l * unat step = unat e)"
proof -
  let ?a = "unat start" and ?b = "unat endv" and ?s = "unat step"
  have sp: "0 < ?s" using s by (simp add: unat_gt_0)
  have ab: "?a \<le> ?b" using le by (simp add: word_le_nat_alt)
  from end_for_unat [OF s le nov] obtain e where
    ef: "end_for start endv step = Some e" and
    ue: "unat e = (if (?b - ?a) mod ?s = 0 then ?b else ?b + (?s - (?b - ?a) mod ?s))"
    by blast
  note nn = normalise_nat [OF sp ab, folded ue]
  have be: "?b \<le> unat e" by (rule nn(1))
  have es: "unat e < ?b + ?s" by (rule nn(2))
  have em: "(unat e - ?a) mod ?s = 0" by (rule nn(3))
  have ae: "?a \<le> unat e" using ab be by simp
  have sle: "start \<le> e" using ae by (simp add: word_le_nat_alt)
  define n where "n = (unat e - ?a) div ?s"
  have exact: "?a + n * ?s = unat e"
    using em ae by (simp add: n_def mod_eq_0_iff_dvd)
  let ?it = "\<lparr>iota_v = start, iota_end = e, iota_step = step\<rparr>"
  let ?xs = "map (\<lambda>k. start + of_nat k * step) [0..<n]"
  have c1: "hb_iota start endv step = Some ?it"
    using ef by (simp add: hb_iota_def)
  have c2: "endv \<le> e" using be by (simp add: word_le_nat_alt)
  have c3: "(e - start) mod step = 0"
    using em by (simp add: word_unat_eq_iff unat_mod unat_sub [OF sle])
  have c4: "\<forall>e'. endv \<le> e' \<and> (e' - start) mod step = 0 \<longrightarrow> e \<le> e'"
  proof (intro allI impI)
    fix e' assume h: "endv \<le> e' \<and> (e' - start) mod step = 0"
    then have b': "?b \<le> unat e'" by (simp add: word_le_nat_alt)
    from b' ab have se': "start \<le> e'" by (simp add: word_le_nat_alt)
    from h have "unat ((e' - start) mod step) = 0" by simp
    then have "(unat e' - ?a) mod ?s = 0"
      by (simp add: unat_mod unat_sub [OF se'])
    with b' have "unat e \<le> unat e'" by (rule nn(4))
    then show "e \<le> e'" by (simp add: word_le_nat_alt)
  qed
  have c5: "items hb_iota_ops ?it = Some ?xs"
    using s exact by (rule iota_items_aux)
  have len: "length ?xs = n" by simp
  have val: "unat (start + of_nat k * step) = ?a + k * ?s" if "k \<le> n" for k
  proof -
    have "k * ?s \<le> n * ?s" using that by simp
    then have bound: "?a + k * ?s \<le> unat e" using exact by linarith
    have lt: "unat e < 2 ^ LENGTH(32)" by (rule unsigned_less)
    have "k \<le> k * ?s" using sp by simp
    with bound lt have "k < 2 ^ LENGTH(32)" by linarith
    then have uk: "unat (of_nat k :: unsigned) = k"
      by (simp add: unat_of_nat)
    from bound lt have "unat (of_nat k :: unsigned) * ?s < 2 ^ LENGTH(32)"
      unfolding uk by linarith
    then have um: "unat (of_nat k * step) = k * ?s"
      using uk by (simp add: unat_mult_lem [THEN iffD1])
    from bound lt have "?a + unat (of_nat k * step) < 2 ^ LENGTH(32)"
      unfolding um by linarith
    then have "unat (start + of_nat k * step) = ?a + unat (of_nat k * step)"
      by (rule unat_add_lem [THEN iffD1])
    with um show ?thesis by simp
  qed
  have c7: "\<forall>x\<in>set ?xs. x < endv"
  proof
    fix x assume "x \<in> set ?xs"
    then obtain k where k: "k < n" and x: "x = start + of_nat k * step" by auto
    then have "Suc k * ?s \<le> n * ?s" by (simp del: mult_Suc)
    then have "?a + k * ?s + ?s \<le> unat e" using exact by simp
    with es have "?a + k * ?s < ?b" by linarith
    with val [of k] k x show "x < endv" by (simp add: word_less_nat_alt)
  qed
  have c8: "start + of_nat n * step = e"
    using val [of n] exact by (simp add: word_unat_eq_iff)
  have c9: "\<forall>k\<le>n. \<exists>it' l.
        advance hb_iota_ops k ?it = Some it' \<and>
        iter_len hb_iota_ops it' = Some l \<and> unat l = n - k \<and>
        unat (iota_v it') + unat l * ?s = unat e"
  proof (intro allI impI)
    fix k assume kn: "k \<le> n"
    let ?v = "start + of_nat k * step"
    let ?l = "(e - ?v) div step"
    have uv: "unat ?v = ?a + k * ?s" using kn by (rule val)
    have "k * ?s \<le> n * ?s" using kn by simp
    then have "unat ?v \<le> unat e" using uv exact by linarith
    then have "?v \<le> e" by (simp add: word_le_nat_alt)
    then have "unat (e - ?v) = unat e - unat ?v" by (rule unat_sub)
    also have "\<dots> = (n - k) * ?s" using uv exact kn by (simp add: diff_mult_distrib)
    finally have ul: "unat ?l = n - k" using sp by (simp add: unat_div)
    have "unat ?v + unat ?l * ?s = unat e"
      using ul uv exact kn by (simp add: diff_mult_distrib)
    moreover have "iter_len hb_iota_ops \<lparr>iota_v = ?v, iota_end = e, iota_step = step\<rparr> = Some ?l"
      using s by (simp add: hb_iota_ops_def iota_len_def)
    ultimately show "\<exists>it' l.
        advance hb_iota_ops k ?it = Some it' \<and>
        iter_len hb_iota_ops it' = Some l \<and> unat l = n - k \<and>
        unat (iota_v it') + unat l * ?s = unat e"
      using ul by (simp add: iota_advance)
  qed
  from c1 c2 c3 c4 c5 len c7 c8 c9 show ?thesis
    by (intro exI [of _ e] exI [of _ ?xs]) (simp only: len simp_thms)
qed

text \<open>
  \<open>hb_iota 0 10 3\<close>: the internal end is \<open>12\<close>, the items are \<open>0, 3, 6, 9\<close>, the length is \<open>4\<close>.
\<close>

theorem iota_normalized_witness:
  "(3 :: unsigned) \<noteq> 0 \<and> (0 :: unsigned) \<le> 10 \<and>
   unat (10 :: unsigned) +
     (unat (3 :: unsigned) - (unat (10 :: unsigned) - unat (0 :: unsigned)) mod unat (3 :: unsigned))
       mod unat (3 :: unsigned) < 2 ^ 32 \<and>
   hb_iota 0 10 3 = Some \<lparr>iota_v = 0, iota_end = 12, iota_step = 3\<rparr> \<and>
   items hb_iota_ops \<lparr>iota_v = 0, iota_end = 12, iota_step = 3\<rparr> = Some [0, 3, 6, 9] \<and>
   iter_len hb_iota_ops \<lparr>iota_v = 0, iota_end = 12, iota_step = 3\<rparr> = Some 4 \<and>
   (10 :: unsigned) \<le> 12 \<and> ((12 :: unsigned) - 0) mod 3 = 0 \<and>
   ((10 :: unsigned) - 0) mod 3 \<noteq> 0 \<and> ((11 :: unsigned) - 0) mod 3 \<noteq> 0 \<and>
   (0 :: unsigned) < 10 \<and> (3 :: unsigned) < 10 \<and> (6 :: unsigned) < 10 \<and> (9 :: unsigned) < 10"
proof -
  have h1: "(3 :: unsigned) \<noteq> 0" by simp
  have h2: "(0 :: unsigned) \<le> 10" by simp
  have h3: "unat (10 :: unsigned) +
     (unat (3 :: unsigned) - (unat (10 :: unsigned) - unat (0 :: unsigned)) mod unat (3 :: unsigned))
       mod unat (3 :: unsigned) < 2 ^ 32"
    by simp
  from iota_normalized [OF h1 h2 h3] obtain e xs where
    a: "hb_iota 0 10 3 = Some \<lparr>iota_v = 0, iota_end = e, iota_step = 3\<rparr>" and
    m: "\<forall>e'. 10 \<le> e' \<and> (e' - 0) mod 3 = 0 \<longrightarrow> e \<le> e'" and
    i: "items hb_iota_ops \<lparr>iota_v = 0, iota_end = e, iota_step = 3\<rparr> = Some xs" and
    b: "\<forall>x\<in>set xs. x < 10"
    by blast
  from a have e: "e = 12" by (simp add: iota_0_10_3)
  from i have xs: "xs = [0, 3, 6, 9]" by (simp add: e items_iota_0_10_3)
  have l: "iter_len hb_iota_ops \<lparr>iota_v = 0, iota_end = 12, iota_step = 3\<rparr> = Some 4"
    by (simp add: hb_iota_ops_def iota_len_def)
  have n: "(10 :: unsigned) \<le> 12 \<and> ((12 :: unsigned) - 0) mod 3 = 0" by simp
  from m have "\<not> ((10 :: unsigned) \<le> 10 \<and> ((10 :: unsigned) - 0) mod 3 = 0)"
    and "\<not> ((10 :: unsigned) \<le> 11 \<and> ((11 :: unsigned) - 0) mod 3 = 0)"
    unfolding e by auto
  then have k: "((10 :: unsigned) - 0) mod 3 \<noteq> 0 \<and> ((11 :: unsigned) - 0) mod 3 \<noteq> 0"
    by simp
  from b have q: "(0 :: unsigned) < 10 \<and> (3 :: unsigned) < 10 \<and> (6 :: unsigned) < 10 \<and>
      (9 :: unsigned) < 10"
    unfolding xs by simp
  from h3 iota_0_10_3 items_iota_0_10_3 l n k q
  show ?thesis by (intro conjI h1 h2) (elim conjE, assumption)+
qed

text \<open>
  Without the third hypothesis the normalization wraps around: for \<open>hb_iota 0 0xFFFFFFFF 2\<close>
  the remainder is \<open>1\<close>, \<^verbatim>\<open>end += step - res\<close> gives \<open>0\<close>, which is below the original end, and
  the iterator is exhausted from the start.
\<close>

theorem iota_end_wraps:
  "(0 :: unsigned) \<le> 0xFFFFFFFF \<and> (2 :: unsigned) \<noteq> 0 \<and>
   hb_iota 0 0xFFFFFFFF 2 = Some \<lparr>iota_v = 0, iota_end = 0, iota_step = 2\<rparr> \<and>
   \<not> (0xFFFFFFFF :: unsigned) \<le> 0 \<and>
   items hb_iota_ops \<lparr>iota_v = 0, iota_end = 0, iota_step = 2\<rparr> = Some [] \<and>
   iter_len hb_iota_ops \<lparr>iota_v = 0, iota_end = 0, iota_step = 2\<rparr> = Some 0"
  by (simp add: hb_iota_def end_for_def items_Nil_iff hb_iota_ops_def iota_more_def iota_len_def)

end
